theory Spec2Isabelle
  imports Main "HOL-Library.AList" "HOL-Library.Sublist" "HOL-Library.Multiset"
begin

section \<open>The N-Queens CSP solver of NQueensCSP.py\<close>

text \<open>
  The class \<^verbatim>\<open>NQueensCSP\<close> keeps two attributes: \<^verbatim>\<open>domains\<close>, a dict from the
  column index to the list of candidate rows, and \<^verbatim>\<open>constraints\<close>, a list of
  ordered pairs of columns. \<^verbatim>\<open>read_input\<close> is the only writer of the dict's keys and
  creates exactly the keys \<^verbatim>\<open>range(n)\<close>, so the dict is a list indexed by the key:
  key \<open>i\<close> is present iff \<open>i < length doms\<close>, \<^verbatim>\<open>len(self.domains)\<close> is the length,
  and a lookup of an absent key is the \<^verbatim>\<open>KeyError\<close> branch. Columns are \<open>nat\<close>,
  rows are Python's unbounded \<open>int\<close>.

  An assignment is a Python dict from column to row. It is an association list in
  insertion order with distinct keys: \<^verbatim>\<open>a[k] = v\<close> is \<open>AList.update\<close>
  (in place for a present key, appended for a new one), \<^verbatim>\<open>del a[k]\<close> is
  \<open>AList.delete\<close>, \<^verbatim>\<open>len(a)\<close> is \<open>length\<close>, \<^verbatim>\<open>k in a\<close> is membership in
  \<open>map fst a\<close>.
\<close>

datatype error = KeyError | ValueError | OutOfFuel

type_synonym assignment = "(nat \<times> int) list"

record csp =
  domains :: "int list list"
  constraints :: "(nat \<times> nat) list"

subsection \<open>read_input\<close>

text \<open>
  The part of \<^verbatim>\<open>read_input\<close> after \<open>n\<close> is known:
  \<^verbatim>\<open>self.domains = {i: list(range(n)) for i in range(n)}\<close> and
  \<^verbatim>\<open>self.constraints = [(i, j) for i in range(n) for j in range(n) if i != j]\<close>.
\<close>

definition init_csp :: "nat \<Rightarrow> csp" where
  "init_csp n =
     \<lparr> domains = map (\<lambda>i. map int [0..<n]) [0..<n],
       constraints = concat (map (\<lambda>i. map (\<lambda>j. (i, j)) (filter (\<lambda>j. i \<noteq> j) [0..<n])) [0..<n]) \<rparr>"

text \<open>
  With a file path, \<^verbatim>\<open>queen_cols\<close> is the list of the integers of the file's lines and
  \<open>n\<close> is their number; the values are returned and otherwise unused.
\<close>

definition read_input :: "int list \<Rightarrow> csp \<times> int list" where
  "read_input queen_cols = (init_csp (length queen_cols), queen_cols)"

subsection \<open>is_consistent\<close>

text \<open>
  \<^verbatim>\<open>for var, val in assignment.items():
      if val == value or abs(val - value) == abs(var - variable): return False
  return True\<close>
\<close>

fun is_consistent :: "nat \<Rightarrow> int \<Rightarrow> assignment \<Rightarrow> bool" where
  "is_consistent variable value [] = True"
| "is_consistent variable value ((var, val) # rest) =
     (if val = value \<or> \<bar>val - value\<bar> = \<bar>int var - int variable\<bar> then False
      else is_consistent variable value rest)"

text \<open>
  The non-attack predicate in the words of the specification: \<open>(i, vi)\<close> and \<open>(j, vj)\<close>
  are compatible iff \<open>vi \<noteq> vj\<close> and \<open>|vi - vj| \<noteq> |i - j|\<close>.
\<close>

definition compatible :: "nat \<Rightarrow> int \<Rightarrow> nat \<Rightarrow> int \<Rightarrow> bool" where
  "compatible i vi j vj = (vi \<noteq> vj \<and> \<bar>vi - vj\<bar> \<noteq> \<bar>int i - int j\<bar>)"

subsection \<open>revise\<close>

text \<open>
  \<^verbatim>\<open>revised = False
  for val_i in self.domains[var_i][:]:
      if all(not any(val_i == val_j for val_j in self.domains[var_j])
             for val_j in self.domains[var_j]):
          self.domains[var_i].remove(val_i)
          revised = True
  return revised\<close>

  The loop runs over a copy of \<open>var_i\<close>'s domain and carries the flag and the dict.
  The inner generator rebinds \<^verbatim>\<open>val_j\<close>, as the inner \<open>\<lambda>\<close> does here.
  \<^verbatim>\<open>list.remove\<close> deletes the first occurrence and raises \<^verbatim>\<open>ValueError\<close> when
  there is none.
\<close>

fun revise_loop :: "nat \<Rightarrow> nat \<Rightarrow> int list \<Rightarrow> bool \<times> int list list \<Rightarrow> error + (bool \<times> int list list)" where
  "revise_loop var_i var_j [] (revised, doms) = Inr (revised, doms)"
| "revise_loop var_i var_j (val_i # rest) (revised, doms) =
     (if length doms \<le> var_j then Inl KeyError
      else if list_all (\<lambda>val_j. \<not> list_ex (\<lambda>val_j. val_i = val_j) (doms ! var_j)) (doms ! var_j)
      then (if length doms \<le> var_i then Inl KeyError
            else if val_i \<in> set (doms ! var_i)
            then revise_loop var_i var_j rest (True, doms[var_i := remove1 val_i (doms ! var_i)])
            else Inl ValueError)
      else revise_loop var_i var_j rest (revised, doms))"

definition revise :: "int list list \<Rightarrow> nat \<Rightarrow> nat \<Rightarrow> error + (bool \<times> int list list)" where
  "revise doms var_i var_j =
     (if length doms \<le> var_i then Inl KeyError
      else revise_loop var_i var_j (doms ! var_i) (False, doms))"

subsection \<open>select_unassigned_variable\<close>

text \<open>
  \<^verbatim>\<open>unassigned_vars = [var for var in range(len(self.domains)) if var not in assignment]
  return min(unassigned_vars, key=lambda var: (len(self.domains[var]), -var))\<close>

  Python compares the key tuples lexicographically; \<^verbatim>\<open>min\<close> keeps the first element
  whose key is smallest and raises \<^verbatim>\<open>ValueError\<close> on an empty list.
\<close>

definition mrv_key :: "int list list \<Rightarrow> nat \<Rightarrow> nat \<times> int" where
  "mrv_key doms var = (length (doms ! var), - int var)"

definition key_less :: "nat \<times> int \<Rightarrow> nat \<times> int \<Rightarrow> bool" where
  "key_less k1 k2 = (fst k1 < fst k2 \<or> (fst k1 = fst k2 \<and> snd k1 < snd k2))"

definition min_by_key :: "('a \<Rightarrow> nat \<times> int) \<Rightarrow> 'a list \<Rightarrow> error + 'a" where
  "min_by_key key xs =
     (case xs of
        [] \<Rightarrow> Inl ValueError
      | x # rest \<Rightarrow> Inr (foldl (\<lambda>best y. if key_less (key y) (key best) then y else best) x rest))"

definition unassigned_vars :: "int list list \<Rightarrow> assignment \<Rightarrow> nat list" where
  "unassigned_vars doms a = filter (\<lambda>var. var \<notin> set (map fst a)) [0..<length doms]"

definition select_unassigned_variable :: "int list list \<Rightarrow> assignment \<Rightarrow> error + nat" where
  "select_unassigned_variable doms a = min_by_key (mrv_key doms) (unassigned_vars doms a)"

subsection \<open>order_domain_values\<close>

text \<open>
  \<^verbatim>\<open>def lcv_score(value):
      count = 0
      for neighbor_var in range(len(self.domains)):
          if neighbor_var != variable and neighbor_var not in assignment:
              for neighbor_val in self.domains[neighbor_var]:
                  if self.is_consistent(neighbor_var, neighbor_val,
                                        {**assignment, variable: value}):
                      count += 1
      return count
  return sorted(self.domains[variable], key=lcv_score, reverse=True)\<close>

  Both loops carry the counter. \<^verbatim>\<open>sorted\<close> computes each key once and is stable,
  also with \<^verbatim>\<open>reverse=True\<close>: values of equal score keep the order of the domain.
\<close>

definition lcv_score :: "int list list \<Rightarrow> nat \<Rightarrow> assignment \<Rightarrow> int \<Rightarrow> nat" where
  "lcv_score doms variable a value =
     foldl (\<lambda>count neighbor_var.
              if neighbor_var \<noteq> variable \<and> neighbor_var \<notin> set (map fst a)
              then foldl (\<lambda>count neighbor_val.
                            if is_consistent neighbor_var neighbor_val (AList.update variable value a)
                            then count + 1 else count)
                         count (doms ! neighbor_var)
              else count)
           0 [0..<length doms]"

definition sorted_reverse :: "('a \<Rightarrow> nat) \<Rightarrow> 'a list \<Rightarrow> 'a list" where
  "sorted_reverse key xs = map snd (sort_key (\<lambda>p. - int (fst p)) (map (\<lambda>x. (key x, x)) xs))"

definition order_domain_values :: "int list list \<Rightarrow> nat \<Rightarrow> assignment \<Rightarrow> error + int list" where
  "order_domain_values doms variable a =
     (if length doms \<le> variable then Inl KeyError
      else Inr (sorted_reverse (lcv_score doms variable a) (doms ! variable)))"

subsection \<open>AC3\<close>

text \<open>
  \<^verbatim>\<open>queue = deque(self.constraints)
  while queue:
      var_i, var_j = queue.popleft()
      if self.revise(var_i, var_j):
          if not self.domains[var_i]: return False
          for var_k, _ in self.constraints:
              if var_k != var_j: queue.append((var_k, var_i))
  return True\<close>

  The loop carries the queue and the dict. \<open>AC3_step\<close> is one pass through the body
  with the arc that \<^verbatim>\<open>popleft\<close> took and the rest of the queue: it returns, or goes
  on with the queue and the dict as the body leaves them; \<open>requeue\<close> is the inner
  \<^verbatim>\<open>for\<close> loop's appends. \<open>AC3_loop\<close> runs the body until the queue is empty. It ends
  because a revision that reports a change has removed a value, and one that reports
  none leaves the dict alone.
\<close>

definition requeue :: "(nat \<times> nat) list \<Rightarrow> nat \<Rightarrow> nat \<Rightarrow> (nat \<times> nat) list" where
  "requeue cs var_i var_j =
     map (\<lambda>(var_k, _). (var_k, var_i)) (filter (\<lambda>(var_k, _). var_k \<noteq> var_j) cs)"

lemma revise_loop_size:
  "revise_loop var_i var_j vs (revised, doms) = Inr (revised', doms') \<Longrightarrow>
     (if revised' \<and> \<not> revised
      then sum_list (map length doms') < sum_list (map length doms)
      else sum_list (map length doms') \<le> sum_list (map length doms))"
proof (induction vs arbitrary: revised doms)
  case Nil
  then show ?case by auto
next
  case (Cons v vs)
  show ?case
  proof (cases "list_all (\<lambda>val_j. \<not> list_ex (\<lambda>val_j. v = val_j) (doms ! var_j)) (doms ! var_j)")
    case False
    then show ?thesis using Cons.prems Cons.IH [of revised doms]
      by (simp split: if_splits)
  next
    case True
    let ?doms1 = "doms[var_i := remove1 v (doms ! var_i)]"
    from True Cons.prems have i: "var_i < length doms" and v: "v \<in> set (doms ! var_i)"
      and run: "revise_loop var_i var_j vs (True, ?doms1) = Inr (revised', doms')"
      by (simp_all split: if_splits)
    have pos: "0 < length (doms ! var_i)" using v by (cases "doms ! var_i") auto
    have rm: "length (remove1 v (doms ! var_i)) = length (doms ! var_i) - 1"
      using v by (simp add: length_remove1)
    have "length (doms ! var_i) \<in> set (map length doms)"
      using i by simp
    then have le: "length (doms ! var_i) \<le> sum_list (map length doms)"
      by (simp add: member_le_sum_list)
    have upd: "sum_list (map length ?doms1) =
                 sum_list (map length doms) + length (remove1 v (doms ! var_i)) - length (doms ! var_i)"
      using i by (simp add: map_update sum_list_update)
    have "sum_list (map length ?doms1) < sum_list (map length doms)"
      using pos rm le upd by linarith
    moreover have "sum_list (map length doms') \<le> sum_list (map length ?doms1)"
      using Cons.IH [OF run] by simp
    ultimately show ?thesis by simp
  qed
qed

lemma revise_loop_unrevised:
  "revise_loop var_i var_j vs (revised, doms) = Inr (False, doms') \<Longrightarrow> doms' = doms"
proof (induction vs arbitrary: revised doms)
  case Nil
  then show ?case by simp
next
  case (Cons v vs)
  have no_true: "\<And>d. revise_loop var_i var_j vs (True, d) \<noteq> Inr (False, doms')"
  proof
    fix d assume "revise_loop var_i var_j vs (True, d) = Inr (False, doms')"
    then show False
    proof (induction vs arbitrary: d)
      case Nil then show ?case by simp
    next
      case (Cons w ws) then show ?case by (simp split: if_splits)
    qed
  qed
  from Cons.prems show ?case
    using Cons.IH [of revised doms] no_true by (simp split: if_splits)
qed

lemma revise_shrinks:
  "revise doms var_i var_j = Inr (True, doms') \<Longrightarrow>
     sum_list (map length doms') < sum_list (map length doms)"
  using revise_loop_size [of var_i var_j "doms ! var_i" False doms True doms']
  by (simp add: revise_def split: if_splits)

lemma revise_unrevised:
  "revise doms var_i var_j = Inr (False, doms') \<Longrightarrow> doms' = doms"
  using revise_loop_unrevised [of var_i var_j "doms ! var_i" False doms doms']
  by (simp add: revise_def split: if_splits)

datatype ac3_next = Return bool "int list list" | Continue "(nat \<times> nat) list" "int list list"

fun AC3_step :: "(nat \<times> nat) list \<Rightarrow> nat \<times> nat \<Rightarrow> (nat \<times> nat) list \<Rightarrow> int list list \<Rightarrow> error + ac3_next" where
  "AC3_step cs (var_i, var_j) queue doms =
     (case revise doms var_i var_j of
        Inl e \<Rightarrow> Inl e
      | Inr (revised, doms') \<Rightarrow>
          if revised
          then (if doms' ! var_i = [] then Inr (Return False doms')
                else Inr (Continue (queue @ requeue cs var_i var_j) doms'))
          else Inr (Continue queue doms'))"

lemma AC3_step_decreases:
  assumes "AC3_step cs arc queue doms = Inr (Continue queue' doms')"
  shows "sum_list (map length doms') < sum_list (map length doms) \<or>
         (doms' = doms \<and> queue' = queue)"
proof -
  obtain var_i var_j where arc: "arc = (var_i, var_j)" by (cases arc)
  show ?thesis
  proof (cases "revise doms var_i var_j")
    case (Inl e)
    with assms arc show ?thesis by simp
  next
    case (Inr p)
    obtain revised d where p: "p = (revised, d)" by (cases p)
    show ?thesis
    proof (cases revised)
      case True
      with assms arc Inr p have "doms' = d" by (simp split: if_splits)
      with Inr p True have "revise doms var_i var_j = Inr (True, doms')" by simp
      from revise_shrinks [OF this] show ?thesis by simp
    next
      case False
      with assms arc Inr p have eq: "doms' = d" "queue' = queue" by simp_all
      with Inr p False have "revise doms var_i var_j = Inr (False, doms')" by simp
      from revise_unrevised [OF this] eq show ?thesis by simp
    qed
  qed
qed

function AC3_loop :: "(nat \<times> nat) list \<Rightarrow> (nat \<times> nat) list \<Rightarrow> int list list \<Rightarrow> error + (bool \<times> int list list)" where
  "AC3_loop cs [] doms = Inr (True, doms)"
| "AC3_loop cs (arc # queue) doms =
     (case AC3_step cs arc queue doms of
        Inl e \<Rightarrow> Inl e
      | Inr (Return ok doms') \<Rightarrow> Inr (ok, doms')
      | Inr (Continue queue' doms') \<Rightarrow> AC3_loop cs queue' doms')"
  by pat_completeness auto
termination
proof (relation "measures [\<lambda>(cs, queue, doms). sum_list (map length doms), \<lambda>(cs, queue, doms). length queue]")
  show "wf (measures [\<lambda>(cs, queue, doms). sum_list (map length doms), \<lambda>(cs, queue, doms). length queue])"
    by simp
next
  fix cs :: "(nat \<times> nat) list" and arc queue and doms :: "int list list" and x2 queue' doms'
  assume "AC3_step cs arc queue doms = Inr x2" "x2 = Continue queue' doms'"
  then have "AC3_step cs arc queue doms = Inr (Continue queue' doms')" by simp
  from AC3_step_decreases [OF this]
  show "((cs, queue', doms'), (cs, arc # queue, doms))
          \<in> measures [\<lambda>(cs, queue, doms). sum_list (map length doms), \<lambda>(cs, queue, doms). length queue]"
    by auto
qed

text \<open>
  The loop with the body written out: what \<open>AC3_loop\<close> does with the arc at the head of
  the queue, and the induction that follows these calls.
\<close>

lemma AC3_loop_Cons:
  "AC3_loop cs ((var_i, var_j) # queue) doms =
     (case revise doms var_i var_j of
        Inl e \<Rightarrow> Inl e
      | Inr (revised, doms') \<Rightarrow>
          if revised
          then (if doms' ! var_i = [] then Inr (False, doms')
                else AC3_loop cs (queue @ requeue cs var_i var_j) doms')
          else AC3_loop cs queue doms')"
  by (simp split: sum.splits prod.splits)

lemma AC3_loop_revise_induct [case_names 1 2]:
  assumes empty: "\<And>cs doms. P cs [] doms"
    and arc: "\<And>cs var_i var_j queue doms.
      (\<And>x2 revised doms'. revise doms var_i var_j = Inr x2 \<Longrightarrow> (revised, doms') = x2 \<Longrightarrow>
          revised \<Longrightarrow> doms' ! var_i \<noteq> [] \<Longrightarrow> P cs (queue @ requeue cs var_i var_j) doms') \<Longrightarrow>
      (\<And>x2 revised doms'. revise doms var_i var_j = Inr x2 \<Longrightarrow> (revised, doms') = x2 \<Longrightarrow>
          \<not> revised \<Longrightarrow> P cs queue doms') \<Longrightarrow>
      P cs ((var_i, var_j) # queue) doms"
  shows "P cs queue doms"
proof (induction cs queue doms rule: AC3_loop.induct)
  case (1 cs doms)
  show ?case by (rule empty)
next
  case (2 cs a queue doms)
  obtain var_i var_j where a: "a = (var_i, var_j)" by (cases a)
  show ?case unfolding a
  proof (rule arc)
    fix x2 revised doms'
    assume "revise doms var_i var_j = Inr x2" "(revised, doms') = x2" "revised"
      "doms' ! var_i \<noteq> []"
    then have "AC3_step cs a queue doms = Inr (Continue (queue @ requeue cs var_i var_j) doms')"
      by (auto simp: a)
    from "2.IH" [OF this refl] show "P cs (queue @ requeue cs var_i var_j) doms'" .
  next
    fix x2 revised doms'
    assume "revise doms var_i var_j = Inr x2" "(revised, doms') = x2" "\<not> revised"
    then have "AC3_step cs a queue doms = Inr (Continue queue doms')"
      by (auto simp: a)
    from "2.IH" [OF this refl] show "P cs queue doms'" .
  qed
qed

declare AC3_loop.simps(2) [simp del]
declare AC3_loop_Cons [simp]

definition AC3 :: "csp \<Rightarrow> error + (bool \<times> csp)" where
  "AC3 st =
     (case AC3_loop (constraints st) (constraints st) (domains st) of
        Inl e \<Rightarrow> Inl e
      | Inr (ok, doms') \<Rightarrow> Inr (ok, st\<lparr>domains := doms'\<rparr>))"

subsection \<open>backtracking_search and _backtrack\<close>

text \<open>
  \<^verbatim>\<open>if len(assignment) == len(self.domains): return assignment
  variable = self.select_unassigned_variable(assignment)
  ordered_values = self.order_domain_values(variable, assignment)
  for value in ordered_values:
      if self.is_consistent(variable, value, assignment):
          assignment[variable] = value
          result = self._backtrack(assignment)
          if result is not None: return result
          del assignment[variable]
  return None\<close>

  The assignment is one dict that every call mutates, so \<open>backtrack\<close> returns what the
  call returns together with the dict as the call leaves it; a returned assignment is
  that same dict. \<open>try_values\<close> is the \<^verbatim>\<open>for\<close> loop. The first argument bounds the
  depth of the recursion; \<open>backtracking_search\<close> gives it one more than the number of
  variables, which is shown below to be enough. \<^verbatim>\<open>del\<close> of an absent key is the
  \<^verbatim>\<open>KeyError\<close> branch.
\<close>

fun backtrack :: "nat \<Rightarrow> int list list \<Rightarrow> assignment \<Rightarrow> error + (assignment option \<times> assignment)"
and try_values :: "nat \<Rightarrow> int list list \<Rightarrow> nat \<Rightarrow> int list \<Rightarrow> assignment \<Rightarrow> error + (assignment option \<times> assignment)" where
  "backtrack 0 doms a = Inl OutOfFuel"
| "backtrack (Suc fuel) doms a =
     (if length a = length doms then Inr (Some a, a)
      else case select_unassigned_variable doms a of
             Inl e \<Rightarrow> Inl e
           | Inr variable \<Rightarrow>
               (case order_domain_values doms variable a of
                  Inl e \<Rightarrow> Inl e
                | Inr ordered_values \<Rightarrow> try_values fuel doms variable ordered_values a))"
| "try_values fuel doms variable [] a = Inr (None, a)"
| "try_values fuel doms variable (value # rest) a =
     (if is_consistent variable value a
      then (case backtrack fuel doms (AList.update variable value a) of
              Inl e \<Rightarrow> Inl e
            | Inr (Some result, a') \<Rightarrow> Inr (Some result, a')
            | Inr (None, a') \<Rightarrow>
                if variable \<in> set (map fst a')
                then try_values fuel doms variable rest (AList.delete variable a')
                else Inl KeyError)
      else try_values fuel doms variable rest a)"

definition backtracking_search :: "int list list \<Rightarrow> error + assignment option" where
  "backtracking_search doms =
     (case backtrack (Suc (length doms)) doms [] of
        Inl e \<Rightarrow> Inl e
      | Inr (result, a) \<Rightarrow> Inr result)"

subsection \<open>solve_nqueens\<close>

text \<open>
  \<^verbatim>\<open>queen_cols = self.read_input(file_path)
  if self.AC3():
      assignment = self.backtracking_search()
      if assignment is None: print("No solution found")
      else:
          print("Solution found")
          for i in range(len(queen_cols)): print((i+1, assignment[i]+1))
  else:
      print("No solution found.")\<close>

  What is printed is a list of lines: a text, or a pair of integers. The body after
  \<^verbatim>\<open>read_input\<close> is \<open>solve_from\<close>, on any state of the object; the search it calls is
  its first argument, and \<open>solve_nqueens\<close> passes \<open>backtracking_search\<close>.
\<close>

datatype line = Text string | Tuple int int

fun print_rows :: "nat list \<Rightarrow> assignment \<Rightarrow> error + line list" where
  "print_rows [] assignment = Inr []"
| "print_rows (i # rest) assignment =
     (case map_of assignment i of
        None \<Rightarrow> Inl KeyError
      | Some row \<Rightarrow>
          (case print_rows rest assignment of
             Inl e \<Rightarrow> Inl e
           | Inr ls \<Rightarrow> Inr (Tuple (int i + 1) (row + 1) # ls)))"

definition solve_from :: "(int list list \<Rightarrow> error + assignment option) \<Rightarrow> csp \<Rightarrow> int list \<Rightarrow> error + line list" where
  "solve_from search st queen_cols =
     (case AC3 st of
        Inl e \<Rightarrow> Inl e
      | Inr (ok, st') \<Rightarrow>
          if ok
          then (case search (domains st') of
                  Inl e \<Rightarrow> Inl e
                | Inr None \<Rightarrow> Inr [Text ''No solution found'']
                | Inr (Some assignment) \<Rightarrow>
                    (case print_rows [0..<length queen_cols] assignment of
                       Inl e \<Rightarrow> Inl e
                     | Inr ls \<Rightarrow> Inr (Text ''Solution found'' # ls)))
          else Inr [Text ''No solution found.''])"

definition solve_nqueens :: "int list \<Rightarrow> error + line list" where
  "solve_nqueens file_lines =
     (case read_input file_lines of
        (st, queen_cols) \<Rightarrow> solve_from backtracking_search st queen_cols)"

subsection \<open>Predicates for stating the properties\<close>

text \<open>
  An assignment is non-attacking when any two of its entries for different columns are
  compatible. \<open>completes doms a r\<close> says that \<open>r\<close> has one entry for each of the
  variables, keeps every entry of \<open>a\<close>, adds only variables of \<open>doms\<close> with a value
  of their domain, and keeps the keys distinct and the entries non-attacking when those
  of \<open>a\<close> are. A solution has exactly one entry for each variable, with a value of
  its domain, and is non-attacking. \<open>post\<close> is what a call of the search that started
  with the dict \<open>a\<close> leaves: on failure the dict as it was, on success the returned
  dict, which completes \<open>a\<close>.
\<close>

definition non_attacking :: "assignment \<Rightarrow> bool" where
  "non_attacking a = (\<forall>(i, vi) \<in> set a. \<forall>(j, vj) \<in> set a. i \<noteq> j \<longrightarrow> compatible i vi j vj)"

definition completes :: "int list list \<Rightarrow> assignment \<Rightarrow> assignment \<Rightarrow> bool" where
  "completes doms a r =
     (length r = length doms \<and> set a \<subseteq> set r \<and>
      fst ` set r \<subseteq> fst ` set a \<union> {0..<length doms} \<and>
      (\<forall>(i, v) \<in> set r. (i, v) \<in> set a \<or> v \<in> set (doms ! i)) \<and>
      (distinct (map fst a) \<longrightarrow> distinct (map fst r)) \<and>
      (non_attacking a \<longrightarrow> non_attacking r))"

definition solution :: "int list list \<Rightarrow> assignment \<Rightarrow> bool" where
  "solution doms s =
     (distinct (map fst s) \<and> fst ` set s = {0..<length doms} \<and>
      (\<forall>(i, v) \<in> set s. v \<in> set (doms ! i)) \<and> non_attacking s)"

definition post :: "int list list \<Rightarrow> assignment \<Rightarrow> assignment option \<Rightarrow> assignment \<Rightarrow> bool" where
  "post doms a res a' = (case res of None \<Rightarrow> a' = a | Some r \<Rightarrow> a' = r \<and> completes doms a r)"

text \<open>
  \<open>shrunk doms' doms\<close>: the same variables, and each domain of \<open>doms'\<close> is a subsequence
  of the one it was in \<open>doms\<close>. \<open>dom_inv n doms\<close>: there are \<open>n\<close> domains and each is a
  subsequence of \<open>[0, ..., n - 1]\<close>, the domain \<^verbatim>\<open>read_input\<close> creates.
\<close>

definition shrunk :: "int list list \<Rightarrow> int list list \<Rightarrow> bool" where
  "shrunk doms' doms =
     (length doms' = length doms \<and> (\<forall>k < length doms. subseq (doms' ! k) (doms ! k)))"

definition dom_inv :: "nat \<Rightarrow> int list list \<Rightarrow> bool" where
  "dom_inv n doms = (length doms = n \<and> (\<forall>k < n. subseq (doms ! k) (map int [0..<n])))"

text \<open>
  The LCV score in the words of the specification: the pairs \<open>(u, w)\<close> of an unassigned
  variable \<open>u\<close> other than the selected one and a value \<open>w\<close> of \<open>u\<close>'s domain that is
  consistent with the current assignment extended by the selected variable's value \<open>v\<close>.
\<close>

definition consistent_pairs :: "int list list \<Rightarrow> nat \<Rightarrow> assignment \<Rightarrow> int \<Rightarrow> (nat \<times> int) list" where
  "consistent_pairs doms variable a v =
     concat (map (\<lambda>u. if u \<noteq> variable \<and> u \<notin> fst ` set a
                        then map (\<lambda>w. (u, w))
                               (filter (\<lambda>w. is_consistent u w (AList.update variable v a)) (doms ! u))
                        else [])
                 [0..<length doms])"

text \<open>
  The re-enqueued arcs in the words of the claim about the worklist: the pair \<open>(k, i)\<close>,
  once for every variable \<open>k \<noteq> j\<close>.
\<close>

definition claimed_requeue :: "nat \<Rightarrow> nat \<Rightarrow> nat \<Rightarrow> (nat \<times> nat) list" where
  "claimed_requeue n i j = map (\<lambda>k. (k, i)) (filter (\<lambda>k. k \<noteq> j) [0..<n])"

text \<open>
  An arc \<open>(i, j)\<close> is consistent for \<^verbatim>\<open>revise\<close> as it is written when every value of
  \<open>i\<close>'s domain occurs in \<open>j\<close>'s domain: then \<^verbatim>\<open>revise(i, j)\<close> removes nothing.
  \<open>AC3_inv\<close> is the invariant of the AC3 loop on the constraints of size \<open>n\<close>: the queue
  holds pairs of variables, and every constraint is on the queue or consistent.
\<close>

definition arc_consistent :: "int list list \<Rightarrow> nat \<times> nat \<Rightarrow> bool" where
  "arc_consistent doms arc = (set (doms ! fst arc) \<subseteq> set (doms ! snd arc))"

definition AC3_inv :: "nat \<Rightarrow> (nat \<times> nat) list \<Rightarrow> int list list \<Rightarrow> bool" where
  "AC3_inv n queue doms =
     (length doms = n \<and> (\<forall>(a, b) \<in> set queue. a < n \<and> b < n) \<and>
      (\<forall>arc \<in> set (constraints (init_csp n)). arc \<in> set queue \<or> arc_consistent doms arc))"

section \<open>Properties\<close>

subsection \<open>The consistency check and the non-attack predicate\<close>

lemma is_consistent_iff:
  "is_consistent variable value a = (\<forall>(var, val) \<in> set a. compatible var val variable value)"
  by (induction variable "value" a rule: is_consistent.induct) (auto simp: compatible_def)

subsection \<open>What revise removes\<close>

lemma revise_cond_iff:
  "list_all (\<lambda>val_j. \<not> list_ex (\<lambda>val_j. v = val_j) ds) ds = (v \<notin> set ds)"
  by (cases ds) (auto simp: list_all_iff list_ex_iff)

lemma revise_loop_filter:
  assumes "var_i \<noteq> var_j" "var_i < length doms" "var_j < length doms"
    and "doms ! var_i = pre @ rest"
    and "\<forall>x \<in> set pre. x \<in> set (doms ! var_j)"
  shows "revise_loop var_i var_j rest (revised, doms) =
           Inr (revised \<or> (\<exists>v \<in> set rest. v \<notin> set (doms ! var_j)),
                doms[var_i := pre @ filter (\<lambda>v. v \<in> set (doms ! var_j)) rest])"
  using assms
proof (induction rest arbitrary: pre revised doms)
  case Nil
  then have "doms[var_i := pre] = doms" by (metis append_Nil2 list_update_id)
  then show ?case by simp
next
  case (Cons v rest)
  show ?case
  proof (cases "v \<in> set (doms ! var_j)")
    case True
    have "revise_loop var_i var_j rest (revised, doms) =
            Inr (revised \<or> (\<exists>v \<in> set rest. v \<notin> set (doms ! var_j)),
                 doms[var_i := (pre @ [v]) @ filter (\<lambda>v. v \<in> set (doms ! var_j)) rest])"
      using Cons.prems True by (intro Cons.IH) auto
    then show ?thesis using True Cons.prems by (simp add: revise_cond_iff)
  next
    case False
    let ?doms' = "doms[var_i := remove1 v (doms ! var_i)]"
    have notin: "v \<notin> set pre" using False Cons.prems by auto
    have rm: "remove1 v (doms ! var_i) = pre @ rest"
      using Cons.prems notin by (simp add: remove1_append)
    have j': "?doms' ! var_j = doms ! var_j" using Cons.prems by simp
    have "revise_loop var_i var_j rest (True, ?doms') =
            Inr (True \<or> (\<exists>v \<in> set rest. v \<notin> set (?doms' ! var_j)),
                 ?doms'[var_i := pre @ filter (\<lambda>v. v \<in> set (?doms' ! var_j)) rest])"
      using Cons.prems rm j' by (intro Cons.IH) auto
    then show ?thesis using False Cons.prems j' by (simp add: revise_cond_iff)
  qed
qed

lemma revise_filter:
  assumes "var_i \<noteq> var_j" "var_i < length doms" "var_j < length doms"
  shows "revise doms var_i var_j =
           Inr (\<exists>v \<in> set (doms ! var_i). v \<notin> set (doms ! var_j),
                doms[var_i := filter (\<lambda>v. v \<in> set (doms ! var_j)) (doms ! var_i)])"
  using revise_loop_filter [OF assms, of "[]" "doms ! var_i" False] assms
  by (simp add: revise_def)

subsection \<open>Variable selection\<close>

lemma key_less_trans_le:
  "\<not> key_less b a \<Longrightarrow> \<not> key_less c b \<Longrightarrow> \<not> key_less c a"
  by (auto simp: key_less_def)

lemma foldl_min_key:
  "foldl (\<lambda>best y. if key_less (key y) (key best) then y else best) x rest \<in> set (x # rest) \<and>
   (\<forall>y \<in> set (x # rest).
      \<not> key_less (key y) (key (foldl (\<lambda>best y. if key_less (key y) (key best) then y else best) x rest)))"
proof (induction rest arbitrary: x)
  case Nil
  show ?case by (simp add: key_less_def)
next
  case (Cons z rest)
  let ?f = "\<lambda>best y. if key_less (key y) (key best) then y else best"
  let ?x' = "?f x z"
  let ?r = "foldl ?f ?x' rest"
  from Cons.IH [of ?x'] have mem: "?r \<in> set (?x' # rest)"
    and least: "\<forall>y \<in> set (?x' # rest). \<not> key_less (key y) (key ?r)" by blast+
  have r_x': "\<not> key_less (key ?x') (key ?r)" using least by simp
  have x'_x: "\<not> key_less (key x) (key ?x')" by (auto simp: key_less_def)
  have x'_z: "\<not> key_less (key z) (key ?x')" by (auto simp: key_less_def)
  have "\<not> key_less (key x) (key ?r)" using key_less_trans_le [OF r_x' x'_x] .
  moreover have "\<not> key_less (key z) (key ?r)" using key_less_trans_le [OF r_x' x'_z] .
  moreover have "?r \<in> set (x # z # rest)" using mem by (auto split: if_splits)
  ultimately show ?case using least by simp
qed

lemma min_by_key_least:
  assumes "xs \<noteq> []"
  shows "\<exists>v. min_by_key key xs = Inr v \<and> v \<in> set xs \<and> (\<forall>y \<in> set xs. \<not> key_less (key y) (key v))"
proof (cases xs)
  case Nil
  with assms show ?thesis by simp
next
  case (Cons x rest)
  then show ?thesis using foldl_min_key [of key x rest] by (simp add: min_by_key_def)
qed

lemma set_unassigned_vars:
  "set (unassigned_vars doms a) = {u. u < length doms \<and> u \<notin> fst ` set a}"
  by (auto simp: unassigned_vars_def)

subsection \<open>What a call of the search leaves\<close>

lemma set_sorted_reverse: "set (sorted_reverse key xs) = set xs"
  by (simp add: sorted_reverse_def image_image)

lemma update_fresh: "k \<notin> fst ` set a \<Longrightarrow> AList.update k v a = a @ [(k, v)]"
  by (induction a) auto

lemma delete_update_fresh: "k \<notin> fst ` set a \<Longrightarrow> AList.delete k (AList.update k v a) = a"
  by (simp add: delete_update_same)

lemma compatible_sym: "compatible i vi j vj = compatible j vj i vi"
  by (auto simp: compatible_def)

lemma non_attacking_update:
  assumes "non_attacking a" "is_consistent k v a" "k \<notin> fst ` set a"
  shows "non_attacking (AList.update k v a)"
proof -
  from assms(2) have c: "\<forall>(var, val) \<in> set a. compatible var val k v"
    by (simp add: is_consistent_iff)
  then have c': "\<forall>(var, val) \<in> set a. compatible k v var val"
    using compatible_sym by blast
  show ?thesis
    using assms(1) c c' unfolding non_attacking_def update_fresh [OF assms(3)]
    by auto
qed

lemma completes_refl: "length a = length doms \<Longrightarrow> completes doms a a"
  by (auto simp: completes_def)

lemma completes_step:
  assumes "completes doms (AList.update k v a) r" "k \<notin> fst ` set a" "k < length doms"
    "is_consistent k v a" "v \<in> set (doms ! k)"
  shows "completes doms a r"
proof -
  have d: "distinct (map fst a) \<Longrightarrow> distinct (map fst (AList.update k v a))"
    by (rule distinct_update)
  have n: "non_attacking a \<Longrightarrow> non_attacking (AList.update k v a)"
    using non_attacking_update [OF _ assms(4) assms(2)] by blast
  have s: "set (AList.update k v a) = insert (k, v) (set a)"
    by (simp add: update_fresh [OF assms(2)])
  from assms(1) d n show ?thesis
    unfolding completes_def s using assms(3,5) by auto
qed

lemma select_unassigned:
  assumes "select_unassigned_variable doms a = Inr v"
  shows "v < length doms \<and> v \<notin> fst ` set a"
proof -
  from assms have ne: "unassigned_vars doms a \<noteq> []"
    by (auto simp: select_unassigned_variable_def min_by_key_def)
  from min_by_key_least [OF ne, of "mrv_key doms"] assms
  have "v \<in> set (unassigned_vars doms a)"
    by (auto simp: select_unassigned_variable_def)
  then show ?thesis by (simp add: set_unassigned_vars)
qed

lemma backtrack_try_values_post:
  "\<forall>res a'. backtrack fuel doms a = Inr (res, a') \<longrightarrow> post doms a res a'"
  "\<forall>res a'. variable \<notin> fst ` set a \<longrightarrow> variable < length doms \<longrightarrow>
      set vals \<subseteq> set (doms ! variable) \<longrightarrow>
      try_values fuel doms variable vals a = Inr (res, a') \<longrightarrow> post doms a res a'"
proof (induction fuel doms a and fuel doms variable vals a rule: backtrack_try_values.induct)
  case (1 doms a)
  show ?case by simp
next
  case (2 fuel doms a)
  show ?case
  proof (intro allI impI)
    fix res a' assume run: "backtrack (Suc fuel) doms a = Inr (res, a')"
    show "post doms a res a'"
    proof (cases "length a = length doms")
      case True
      with run show ?thesis by (auto simp: post_def completes_refl)
    next
      case False
      with run obtain variable ordered_values where
        sel: "select_unassigned_variable doms a = Inr variable"
        and ord: "order_domain_values doms variable a = Inr ordered_values"
        and tv: "try_values fuel doms variable ordered_values a = Inr (res, a')"
        by (auto split: sum.splits)
      from select_unassigned [OF sel] have rng: "variable < length doms"
        and fresh: "variable \<notin> fst ` set a" by simp_all
      from ord rng have "set ordered_values \<subseteq> set (doms ! variable)"
        by (auto simp: order_domain_values_def set_sorted_reverse)
      with rng fresh "2.IH" [OF False sel ord] tv
      show ?thesis by blast
    qed
  qed
next
  case (3 fuel doms variable a)
  show ?case by (simp add: post_def)
next
  case (4 fuel doms variable "value" rest a)
  show ?case
  proof (intro allI impI)
    fix res a'
    assume fresh: "variable \<notin> fst ` set a" and rng: "variable < length doms"
      and vals: "set (value # rest) \<subseteq> set (doms ! variable)"
      and run: "try_values fuel doms variable (value # rest) a = Inr (res, a')"
    from vals have v: "value \<in> set (doms ! variable)"
      and vals': "set rest \<subseteq> set (doms ! variable)" by simp_all
    show "post doms a res a'"
    proof (cases "is_consistent variable value a")
      case False
      with run "4.IH"(3) fresh rng vals' show ?thesis by simp
    next
      case True
      let ?a1 = "AList.update variable value a"
      from True run obtain r1 a1' where
        bt: "backtrack fuel doms ?a1 = Inr (r1, a1')"
        by (auto split: sum.splits)
      from "4.IH"(1) [OF True] bt have p1: "post doms ?a1 r1 a1'" by blast
      show ?thesis
      proof (cases r1)
        case (Some r)
        with bt True run have "res = Some r" "a' = a1'" by simp_all
        moreover from p1 Some have "a1' = r" "completes doms ?a1 r" by (simp_all add: post_def)
        ultimately show ?thesis
          using completes_step [OF _ fresh rng True v] by (simp add: post_def)
      next
        case None
        with p1 have eq: "a1' = ?a1" by (simp add: post_def)
        have mem: "variable \<in> set (map fst a1')" unfolding eq by (simp add: dom_update)
        have del: "AList.delete variable a1' = a"
          unfolding eq by (rule delete_update_fresh [OF fresh])
        from run True bt None mem del
        have "try_values fuel doms variable rest a = Inr (res, a')" by simp
        with "4.IH"(2) [OF True bt refl None mem] del fresh rng vals'
        show ?thesis by simp
      qed
    qed
  qed
qed

subsection \<open>The search returns, and finds a solution when there is one\<close>

lemma unassigned_vars_update:
  "unassigned_vars doms (AList.update k v a) = removeAll k (unassigned_vars doms a)"
  by (auto simp: unassigned_vars_def dom_update removeAll_filter_not_eq filter_id_conv
      intro!: filter_cong)

lemma unassigned_exists:
  assumes "distinct (map fst a)" "fst ` set a \<subseteq> {0..<length doms}" "length a \<noteq> length doms"
  shows "unassigned_vars doms a \<noteq> []"
proof
  assume "unassigned_vars doms a = []"
  then have "set (unassigned_vars doms a) = {}" by simp
  then have "{0..<length doms} \<subseteq> fst ` set a"
    unfolding set_unassigned_vars by auto
  with assms(2) have "fst ` set a = {0..<length doms}" by blast
  then have "card (set (map fst a)) = length doms" by simp
  with assms(1) have "length a = length doms"
    using distinct_card [of "map fst a"] by simp
  with assms(3) show False by simp
qed

lemma backtrack_post: "backtrack fuel doms a = Inr (res, a') \<Longrightarrow> post doms a res a'"
  using backtrack_try_values_post(1) by blast

lemma backtrack_failure_restores: "backtrack fuel doms a = Inr (None, a') \<Longrightarrow> a' = a"
  using backtrack_post [of fuel doms a None a'] by (simp add: post_def)

lemma backtrack_try_values_total:
  "distinct (map fst a) \<longrightarrow> fst ` set a \<subseteq> {0..<length doms} \<longrightarrow>
     length (unassigned_vars doms a) < fuel \<longrightarrow> (\<exists>r. backtrack fuel doms a = Inr r)"
  "distinct (map fst a) \<longrightarrow> fst ` set a \<subseteq> {0..<length doms} \<longrightarrow>
     variable \<in> set (unassigned_vars doms a) \<longrightarrow>
     length (unassigned_vars doms a) \<le> fuel \<longrightarrow> (\<exists>r. try_values fuel doms variable vals a = Inr r)"
proof (induction fuel doms a and fuel doms variable vals a rule: backtrack_try_values.induct)
  case (1 doms a)
  show ?case by simp
next
  case (2 fuel doms a)
  show ?case
  proof (intro impI)
    assume d: "distinct (map fst a)" and k: "fst ` set a \<subseteq> {0..<length doms}"
      and f: "length (unassigned_vars doms a) < Suc fuel"
    show "\<exists>r. backtrack (Suc fuel) doms a = Inr r"
    proof (cases "length a = length doms")
      case True
      then show ?thesis by simp
    next
      case False
      from min_by_key_least [OF unassigned_exists [OF d k False], of "mrv_key doms"]
      obtain variable where sel: "select_unassigned_variable doms a = Inr variable"
        and mem: "variable \<in> set (unassigned_vars doms a)"
        by (auto simp: select_unassigned_variable_def)
      from mem have rng: "variable < length doms" by (simp add: set_unassigned_vars)
      then obtain ordered_values where
        ord: "order_domain_values doms variable a = Inr ordered_values"
        by (simp add: order_domain_values_def)
      from "2.IH" [OF False sel ord] d k mem f
      obtain r where "try_values fuel doms variable ordered_values a = Inr r" by auto
      with False sel ord show ?thesis by simp
    qed
  qed
next
  case (3 fuel doms variable a)
  show ?case by simp
next
  case (4 fuel doms variable "value" rest a)
  show ?case
  proof (intro impI)
    assume d: "distinct (map fst a)" and k: "fst ` set a \<subseteq> {0..<length doms}"
      and mem: "variable \<in> set (unassigned_vars doms a)"
      and f: "length (unassigned_vars doms a) \<le> fuel"
    from mem have fresh: "variable \<notin> fst ` set a" and rng: "variable < length doms"
      by (simp_all add: set_unassigned_vars)
    show "\<exists>r. try_values fuel doms variable (value # rest) a = Inr r"
    proof (cases "is_consistent variable value a")
      case False
      with "4.IH"(3) d k mem f show ?thesis by simp
    next
      case True
      let ?a1 = "AList.update variable value a"
      have d1: "distinct (map fst ?a1)" using d by (rule distinct_update)
      have k1: "fst ` set ?a1 \<subseteq> {0..<length doms}" using k rng by (simp add: dom_update)
      have "length (unassigned_vars doms ?a1) < length (unassigned_vars doms a)"
        unfolding unassigned_vars_update using mem by (rule length_removeAll_less)
      with f have f1: "length (unassigned_vars doms ?a1) < fuel" by simp
      from "4.IH"(1) [OF True] d1 k1 f1
      obtain r1 a1' where bt: "backtrack fuel doms ?a1 = Inr (r1, a1')" by auto
      show ?thesis
      proof (cases r1)
        case (Some r)
        with bt True show ?thesis by simp
      next
        case None
        from bt None have eq: "a1' = ?a1"
          using backtrack_failure_restores by blast
        have m: "variable \<in> set (map fst a1')" unfolding eq by (simp add: dom_update)
        have del: "AList.delete variable a1' = a"
          unfolding eq by (rule delete_update_fresh [OF fresh])
        from "4.IH"(2) [OF True bt refl None m] del d k mem f
        obtain r where "try_values fuel doms variable rest a = Inr r" by auto
        with True bt None m del show ?thesis by simp
      qed
    qed
  qed
qed

lemma inconsistent_not_in_solution:
  assumes "\<not> is_consistent variable value a" "variable \<notin> fst ` set a"
    "set a \<subseteq> set s" "non_attacking s"
  shows "(variable, value) \<notin> set s"
proof
  assume in_s: "(variable, value) \<in> set s"
  from assms(1) obtain var val where e: "(var, val) \<in> set a"
    and nc: "\<not> compatible var val variable value"
    by (auto simp: is_consistent_iff)
  from e assms(2) have "var \<noteq> variable" by force
  moreover from e assms(3) have "(var, val) \<in> set s" by blast
  ultimately have "compatible var val variable value"
    using assms(4) in_s unfolding non_attacking_def by blast
  with nc show False by simp
qed

lemma backtrack_try_values_complete:
  "(\<exists>s. set a \<subseteq> set s \<and> solution doms s) \<longrightarrow>
     (\<forall>res a'. backtrack fuel doms a = Inr (res, a') \<longrightarrow> res \<noteq> None)"
  "variable \<notin> fst ` set a \<longrightarrow>
   (\<exists>s. set a \<subseteq> set s \<and> solution doms s \<and> (\<exists>v \<in> set vals. (variable, v) \<in> set s)) \<longrightarrow>
     (\<forall>res a'. try_values fuel doms variable vals a = Inr (res, a') \<longrightarrow> res \<noteq> None)"
proof (induction fuel doms a and fuel doms variable vals a rule: backtrack_try_values.induct)
  case (1 doms a)
  show ?case by simp
next
  case (2 fuel doms a)
  show ?case
  proof (intro impI allI)
    fix res a'
    assume ex: "\<exists>s. set a \<subseteq> set s \<and> solution doms s"
      and run: "backtrack (Suc fuel) doms a = Inr (res, a')"
    then obtain s where sub: "set a \<subseteq> set s" and sol: "solution doms s" by blast
    show "res \<noteq> None"
    proof (cases "length a = length doms")
      case True
      with run show ?thesis by auto
    next
      case False
      with run obtain variable ordered_values where
        sel: "select_unassigned_variable doms a = Inr variable"
        and ord: "order_domain_values doms variable a = Inr ordered_values"
        and tv: "try_values fuel doms variable ordered_values a = Inr (res, a')"
        by (auto split: sum.splits)
      from select_unassigned [OF sel] have rng: "variable < length doms"
        and fresh: "variable \<notin> fst ` set a" by simp_all
      from ord rng have vals: "set ordered_values = set (doms ! variable)"
        by (auto simp: order_domain_values_def set_sorted_reverse)
      from sol rng have "variable \<in> fst ` set s" by (simp add: solution_def)
      then obtain v where v: "(variable, v) \<in> set s" by force
      with sol have "v \<in> set (doms ! variable)" by (auto simp: solution_def)
      with v vals sub sol
      have "\<exists>s. set a \<subseteq> set s \<and> solution doms s \<and> (\<exists>v \<in> set ordered_values. (variable, v) \<in> set s)"
        by blast
      with "2.IH" [OF False sel ord] fresh tv show ?thesis by blast
    qed
  qed
next
  case (3 fuel doms variable a)
  show ?case by simp
next
  case (4 fuel doms variable "value" rest a)
  show ?case
  proof (intro impI allI)
    fix res a'
    assume fresh: "variable \<notin> fst ` set a"
      and ex: "\<exists>s. set a \<subseteq> set s \<and> solution doms s \<and> (\<exists>v \<in> set (value # rest). (variable, v) \<in> set s)"
      and run: "try_values fuel doms variable (value # rest) a = Inr (res, a')"
    from ex obtain s v where sub: "set a \<subseteq> set s" and sol: "solution doms s"
      and v: "v \<in> set (value # rest)" "(variable, v) \<in> set s" by blast
    from sol have na: "non_attacking s" by (simp add: solution_def)
    show "res \<noteq> None"
    proof (cases "is_consistent variable value a")
      case False
      from inconsistent_not_in_solution [OF False fresh sub na] v
      have "v \<in> set rest" by auto
      with sub sol v(2)
      have "\<exists>s. set a \<subseteq> set s \<and> solution doms s \<and> (\<exists>v \<in> set rest. (variable, v) \<in> set s)"
        by blast
      with "4.IH"(3) [OF False] fresh run False show ?thesis by simp
    next
      case True
      let ?a1 = "AList.update variable value a"
      from True run obtain r1 a1' where
        bt: "backtrack fuel doms ?a1 = Inr (r1, a1')"
        by (auto split: sum.splits)
      show ?thesis
      proof (cases r1)
        case (Some r)
        with bt True run show ?thesis by auto
      next
        case None
        from bt None have eq: "a1' = ?a1"
          using backtrack_failure_restores by blast
        have m: "variable \<in> set (map fst a1')" unfolding eq by (simp add: dom_update)
        have del: "AList.delete variable a1' = a"
          unfolding eq by (rule delete_update_fresh [OF fresh])
        from run True bt None m del
        have run': "try_values fuel doms variable rest a = Inr (res, a')" by simp
        have "(variable, value) \<notin> set s"
        proof
          assume "(variable, value) \<in> set s"
          with sub have "set ?a1 \<subseteq> set s" by (simp add: update_fresh [OF fresh])
          with sol "4.IH"(1) [OF True] bt None show False by blast
        qed
        with v have "v \<in> set rest" by auto
        with sub sol v(2)
        have "\<exists>s. set a \<subseteq> set s \<and> solution doms s \<and> (\<exists>v \<in> set rest. (variable, v) \<in> set s)"
          by blast
        with "4.IH"(2) [OF True bt refl None m] del fresh run' show ?thesis by simp
      qed
    qed
  qed
qed

lemma backtracking_search_total: "\<exists>res. backtracking_search doms = Inr res"
proof -
  have "length (unassigned_vars doms []) < Suc (length doms)"
    by (simp add: unassigned_vars_def)
  with backtrack_try_values_total(1) [of "[]" doms "Suc (length doms)"]
  obtain r where "backtrack (Suc (length doms)) doms [] = Inr r" by auto
  then show ?thesis by (cases r) (simp add: backtracking_search_def)
qed

lemma backtracking_search_complete:
  assumes "solution doms s"
  shows "\<exists>r. backtracking_search doms = Inr (Some r)"
proof -
  from backtracking_search_total obtain res where r: "backtracking_search doms = Inr res" ..
  then obtain a' where "backtrack (Suc (length doms)) doms [] = Inr (res, a')"
    by (auto simp: backtracking_search_def split: sum.splits)
  with backtrack_try_values_complete(1) [of "[]" doms "Suc (length doms)"] assms
  have "res \<noteq> None" by auto
  with r show ?thesis by auto
qed

lemma backtracking_search_post:
  assumes "backtracking_search doms = Inr (Some r)"
  shows "completes doms [] r"
proof -
  from assms obtain a' where "backtrack (Suc (length doms)) doms [] = Inr (Some r, a')"
    by (auto simp: backtracking_search_def split: sum.splits)
  from backtrack_post [OF this] show ?thesis by (simp add: post_def)
qed

lemma keys_complete:
  assumes "distinct (map fst r)" "fst ` set r \<subseteq> {0..<n}" "length r = n"
  shows "fst ` set r = {0..<n}"
proof -
  have "card (fst ` set r) = n"
    using assms(1,3) distinct_card [of "map fst r"] by simp
  with assms(2) show ?thesis by (simp add: card_subset_eq)
qed

lemma completes_solution:
  assumes "completes doms [] r"
  shows "solution doms r"
proof -
  from assms have d: "distinct (map fst r)" and k: "fst ` set r \<subseteq> {0..<length doms}"
    and l: "length r = length doms" and n: "non_attacking r"
    and v: "\<forall>(i, v) \<in> set r. v \<in> set (doms ! i)"
    by (auto simp: completes_def non_attacking_def)
  from keys_complete [OF d k l] d v n show ?thesis by (simp add: solution_def)
qed

lemma solution_rows:
  assumes "solution doms r" "i < length doms"
  shows "\<exists>ri. map_of r i = Some ri \<and> (i, ri) \<in> set r \<and> ri \<in> set (doms ! i)"
proof -
  from assms have "i \<in> fst ` set r" by (simp add: solution_def)
  then obtain ri where m: "(i, ri) \<in> set r" by force
  moreover from assms(1) have "distinct (map fst r)" by (simp add: solution_def)
  ultimately have "map_of r i = Some ri" by simp
  moreover from m assms(1) have "ri \<in> set (doms ! i)" by (auto simp: solution_def)
  ultimately show ?thesis using m by blast
qed

lemma search_4: "backtracking_search (domains (init_csp 4)) = Inr (Some [(3, 1), (2, 3), (1, 0), (0, 2)])"
  by code_simp

subsection \<open>AC3 on a state whose arcs are consistent\<close>

lemma revise_consistent_arc:
  assumes "i \<noteq> j" "i < length doms" "j < length doms" "set (doms ! i) \<subseteq> set (doms ! j)"
  shows "revise doms i j = Inr (False, doms)"
proof -
  have "filter (\<lambda>v. v \<in> set (doms ! j)) (doms ! i) = doms ! i"
    using assms(4) by (auto simp: filter_id_conv)
  moreover have "\<not> (\<exists>v \<in> set (doms ! i). v \<notin> set (doms ! j))" using assms(4) by blast
  ultimately show ?thesis
    using revise_filter [OF assms(1-3)] by simp
qed

lemma AC3_loop_consistent:
  assumes "\<forall>(i, j) \<in> set queue. i \<noteq> j \<and> i < length doms \<and> j < length doms \<and>
             set (doms ! i) \<subseteq> set (doms ! j)"
  shows "AC3_loop cs queue doms = Inr (True, doms)"
  using assms
proof (induction queue)
  case Nil
  show ?case by simp
next
  case (Cons arc queue)
  obtain i j where arc: "arc = (i, j)" by (cases arc)
  with Cons.prems have "revise doms i j = Inr (False, doms)"
    by (intro revise_consistent_arc) auto
  moreover have "AC3_loop cs queue doms = Inr (True, doms)"
    using Cons.prems by (intro Cons.IH) simp
  ultimately show ?case by (simp add: arc)
qed

lemma constraints_init_csp:
  "set (constraints (init_csp n)) = {(i, j). i < n \<and> j < n \<and> i \<noteq> j}"
  by (auto simp: init_csp_def)

lemma domains_init_csp:
  "length (domains (init_csp n)) = n"
  "i < n \<Longrightarrow> domains (init_csp n) ! i = map int [0..<n]"
  by (simp_all add: init_csp_def)

lemma AC3_init_csp: "AC3 (init_csp n) = Inr (True, init_csp n)"
proof -
  have "AC3_loop (constraints (init_csp n)) (constraints (init_csp n)) (domains (init_csp n)) =
          Inr (True, domains (init_csp n))"
    by (rule AC3_loop_consistent) (auto simp: constraints_init_csp domains_init_csp)
  then show ?thesis by (simp add: AC3_def)
qed

subsection \<open>The invariant of the AC3 loop\<close>

lemma revise_loop_same_variable:
  assumes "var_i < length doms" "set vs \<subseteq> set (doms ! var_i)"
  shows "revise_loop var_i var_i vs (revised, doms) = Inr (revised, doms)"
  using assms by (induction vs) (auto simp: revise_cond_iff)

lemma revise_eq:
  assumes "var_i < length doms" "var_j < length doms"
  shows "revise doms var_i var_j =
           Inr (\<not> arc_consistent doms (var_i, var_j),
                doms[var_i := filter (\<lambda>v. v \<in> set (doms ! var_j)) (doms ! var_i)])"
proof (cases "var_i = var_j")
  case False
  from revise_filter [OF False assms] show ?thesis
    by (auto simp: arc_consistent_def)
next
  case True
  have "revise doms var_i var_i = Inr (False, doms)"
    using revise_loop_same_variable [OF assms(1), of "doms ! var_i" False] assms(1)
    by (simp add: revise_def)
  moreover have "doms[var_i := filter (\<lambda>v. v \<in> set (doms ! var_i)) (doms ! var_i)] = doms"
    by simp
  ultimately show ?thesis using True by (simp add: arc_consistent_def)
qed

lemma requeue_mem:
  assumes "(k, l) \<in> set cs" "k \<noteq> j"
  shows "(k, i) \<in> set (requeue cs i j)"
  using assms by (force simp: requeue_def)

lemma requeue_fst:
  assumes "(k, l) \<in> set (requeue cs i j)"
  shows "l = i \<and> (\<exists>m. (k, m) \<in> set cs)"
  using assms by (auto simp: requeue_def)

lemma AC3_inv_unrevised:
  assumes "AC3_inv n ((i, j) # queue) doms" "arc_consistent doms (i, j)"
  shows "AC3_inv n queue doms"
  using assms unfolding AC3_inv_def by auto

lemma AC3_inv_revised:
  assumes inv: "AC3_inv n ((i, j) # queue) doms" and nc: "\<not> arc_consistent doms (i, j)"
  shows "AC3_inv n (queue @ requeue (constraints (init_csp n)) i j)
           (doms[i := filter (\<lambda>v. v \<in> set (doms ! j)) (doms ! i)])"
proof -
  let ?cs = "constraints (init_csp n)"
  let ?doms' = "doms[i := filter (\<lambda>v. v \<in> set (doms ! j)) (doms ! i)]"
  from inv have len: "length doms = n" and ij: "i < n" "j < n"
    and q: "\<forall>(a, b) \<in> set queue. a < n \<and> b < n"
    and arcs: "\<forall>arc \<in> set ?cs. arc \<in> set ((i, j) # queue) \<or> arc_consistent doms arc"
    by (auto simp: AC3_inv_def)
  from nc have neq: "i \<noteq> j" by (auto simp: arc_consistent_def)
  have di: "?doms' ! i = filter (\<lambda>v. v \<in> set (doms ! j)) (doms ! i)"
    using ij len by simp
  have other: "?doms' ! k = doms ! k" if "k \<noteq> i" for k using that by simp
  have "\<forall>(a, b) \<in> set (requeue ?cs i j). a < n \<and> b < n"
    using ij by (auto dest!: requeue_fst simp: constraints_init_csp)
  with q have q': "\<forall>(a, b) \<in> set (queue @ requeue ?cs i j). a < n \<and> b < n" by auto
  have "arc \<in> set (queue @ requeue ?cs i j) \<or> arc_consistent ?doms' arc"
    if mem: "arc \<in> set ?cs" for arc
  proof -
    obtain a b where arc: "arc = (a, b)" by (cases arc)
    with mem have ab: "a < n" "b < n" "a \<noteq> b" by (simp_all add: constraints_init_csp)
    from arcs mem arc have old: "(a, b) = (i, j) \<or> (a, b) \<in> set queue \<or> arc_consistent doms (a, b)"
      by auto
    show ?thesis
    proof (cases "b = i")
      case True
      show ?thesis
      proof (cases "a = j")
        case False
        with mem arc have "(a, i) \<in> set (requeue ?cs i j)" by (intro requeue_mem) auto
        with arc True show ?thesis by simp
      next
        case aj: True
        from old True aj neq have "(a, b) \<in> set queue \<or> arc_consistent doms (j, i)" by auto
        then show ?thesis
        proof
          assume "(a, b) \<in> set queue"
          with arc show ?thesis by simp
        next
          assume "arc_consistent doms (j, i)"
          then have "arc_consistent ?doms' (j, i)"
            using neq by (auto simp: arc_consistent_def di other)
          with arc True aj show ?thesis by simp
        qed
      qed
    next
      case bi: False
      show ?thesis
      proof (cases "a = i")
        case True
        show ?thesis
        proof (cases "b = j")
          case True
          have "arc_consistent ?doms' (i, j)"
            using neq by (auto simp: arc_consistent_def di other)
          with arc \<open>a = i\<close> True show ?thesis by simp
        next
          case False
          with old True have "(a, b) \<in> set queue \<or> arc_consistent doms (i, b)" by auto
          then show ?thesis
          proof
            assume "(a, b) \<in> set queue"
            with arc show ?thesis by simp
          next
            assume "arc_consistent doms (i, b)"
            then have "arc_consistent ?doms' (i, b)"
              using bi by (auto simp: arc_consistent_def di other)
            with arc True show ?thesis by simp
          qed
        qed
      next
        case False
        with old have "(a, b) \<in> set queue \<or> arc_consistent doms (a, b)" by auto
        then show ?thesis
        proof
          assume "(a, b) \<in> set queue"
          with arc show ?thesis by simp
        next
          assume "arc_consistent doms (a, b)"
          then have "arc_consistent ?doms' (a, b)"
            using bi False by (simp add: arc_consistent_def other)
          with arc show ?thesis by simp
        qed
      qed
    qed
  qed
  with q' len show ?thesis by (simp add: AC3_inv_def)
qed

lemma AC3_loop_arc_consistent:
  "AC3_inv n queue doms \<Longrightarrow> cs = constraints (init_csp n) \<Longrightarrow>
     \<exists>ok doms'. AC3_loop cs queue doms = Inr (ok, doms') \<and>
       (ok \<longrightarrow> AC3_inv n [] doms')"
proof (induction cs queue doms rule: AC3_loop_revise_induct)
  case (1 cs doms)
  then show ?case by auto
next
  case (2 cs var_i var_j queue doms)
  from "2.prems"(1) have len: "length doms = n" and ij: "var_i < n" "var_j < n"
    by (auto simp: AC3_inv_def)
  let ?doms1 = "doms[var_i := filter (\<lambda>v. v \<in> set (doms ! var_j)) (doms ! var_i)]"
  from revise_eq [of var_i doms var_j] ij len
  have rv: "revise doms var_i var_j = Inr (\<not> arc_consistent doms (var_i, var_j), ?doms1)"
    by simp
  show ?case
  proof (cases "arc_consistent doms (var_i, var_j)")
    case True
    with rv have rv': "revise doms var_i var_j = Inr (False, ?doms1)" by simp
    from revise_unrevised [OF rv'] have same: "?doms1 = doms" .
    from AC3_inv_unrevised [OF "2.prems"(1) True] have "AC3_inv n queue ?doms1"
      by (simp add: same)
    from "2.IH"(2) [OF rv' refl _ this "2.prems"(2)] rv' show ?thesis by simp
  next
    case False
    with rv have rv': "revise doms var_i var_j = Inr (True, ?doms1)" by simp
    show ?thesis
    proof (cases "?doms1 ! var_i = []")
      case True
      with rv' show ?thesis by auto
    next
      case ne: False
      from AC3_inv_revised [OF "2.prems"(1) False] "2.prems"(2)
      have "AC3_inv n (queue @ requeue cs var_i var_j) ?doms1" by simp
      from "2.IH"(1) [OF rv' refl _ ne this "2.prems"(2)] rv' ne show ?thesis by simp
    qed
  qed
qed

lemma AC3_inv_start: "length doms = n \<Longrightarrow> AC3_inv n (constraints (init_csp n)) doms"
  by (auto simp: AC3_inv_def constraints_init_csp)

lemma AC3_returns:
  assumes "length (domains st) = n" "constraints st = constraints (init_csp n)"
  shows "\<exists>ok st'. AC3 st = Inr (ok, st')"
  using AC3_loop_arc_consistent [OF AC3_inv_start [OF assms(1)] assms(2)]
  by (auto simp: AC3_def assms(2))

lemma AC3_second_run:
  assumes "length (domains st) = n" "constraints st = constraints (init_csp n)"
    and "AC3 st = Inr (True, st')"
  shows "AC3 st' = Inr (True, st')"
proof -
  let ?cs = "constraints (init_csp n)"
  from assms(3) obtain doms' where
    l: "AC3_loop ?cs ?cs (domains st) = Inr (True, doms')"
    and st': "st' = st\<lparr>domains := doms'\<rparr>"
    by (auto simp: AC3_def assms(2) split: sum.splits)
  from AC3_loop_arc_consistent [OF AC3_inv_start [OF assms(1)] refl] l
  have inv: "AC3_inv n [] doms'" by auto
  then have "\<forall>(i, j) \<in> set ?cs. i \<noteq> j \<and> i < length doms' \<and> j < length doms' \<and>
               set (doms' ! i) \<subseteq> set (doms' ! j)"
    by (auto simp: AC3_inv_def constraints_init_csp arc_consistent_def)
  from AC3_loop_consistent [OF this]
  have "AC3_loop ?cs ?cs doms' = Inr (True, doms')" .
  then show ?thesis by (simp add: AC3_def st' assms(2))
qed

lemma AC3_example:
  "AC3 \<lparr>domains = [[0, 1, 2], [1, 2], [0, 1, 2]], constraints = constraints (init_csp 3)\<rparr> =
     Inr (True, \<lparr>domains = [[1, 2], [1, 2], [1, 2]], constraints = constraints (init_csp 3)\<rparr>)"
  by code_simp

subsection \<open>Two runs of the search\<close>

lemma backtrack_3_fails:
  "backtrack 3 (domains (init_csp 3)) [(2, 0)] = Inr (None, [(2, 0)])"
  by code_simp

lemma backtrack_4_succeeds:
  "backtrack 4 (domains (init_csp 4)) [(3, 1)] =
     Inr (Some [(3, 1), (2, 3), (1, 0), (0, 2)], [(3, 1), (2, 3), (1, 0), (0, 2)])"
  by code_simp

subsection \<open>What solve_nqueens prints\<close>

lemma print_rows_map:
  assumes "\<forall>i \<in> set cols. i \<in> fst ` set r"
  shows "print_rows cols r = Inr (map (\<lambda>i. Tuple (int i + 1) (the (map_of r i) + 1)) cols)"
  using assms
proof (induction cols)
  case Nil
  show ?case by simp
next
  case (Cons i cols)
  then have "i \<in> fst ` set r" by simp
  then obtain row where "map_of r i = Some row"
    by (metis domD dom_map_of_conv_image_fst)
  with Cons show ?case by simp
qed

lemma solve_nqueens_eq:
  "solve_nqueens file_lines =
     (case backtracking_search (domains (init_csp (length file_lines))) of
        Inl e \<Rightarrow> Inl e
      | Inr None \<Rightarrow> Inr [Text ''No solution found'']
      | Inr (Some assignment) \<Rightarrow>
          (case print_rows [0..<length file_lines] assignment of
             Inl e \<Rightarrow> Inl e
           | Inr ls \<Rightarrow> Inr (Text ''Solution found'' # ls)))"
  by (simp add: solve_nqueens_def read_input_def solve_from_def AC3_init_csp)

lemma solve_nqueens_no_solution:
  assumes "backtracking_search (domains (init_csp n)) = Inr None" "length file_lines = n"
  shows "solve_nqueens file_lines = Inr [Text ''No solution found'']"
  using assms by (simp add: solve_nqueens_eq)

lemma solve_nqueens_solution:
  assumes "solution (domains (init_csp n)) s" "length file_lines = n"
  shows "\<exists>r. backtracking_search (domains (init_csp n)) = Inr (Some r) \<and>
             solution (domains (init_csp n)) r \<and>
             solve_nqueens file_lines =
               Inr (Text ''Solution found'' #
                    map (\<lambda>i. Tuple (int i + 1) (the (map_of r i) + 1)) [0..<n])"
proof -
  from backtracking_search_complete [OF assms(1)]
  obtain r where r: "backtracking_search (domains (init_csp n)) = Inr (Some r)" ..
  from backtracking_search_post [OF r] have sol: "solution (domains (init_csp n)) r"
    by (rule completes_solution)
  then have "\<forall>i \<in> set [0..<n]. i \<in> fst ` set r"
    by (simp add: solution_def domains_init_csp)
  from print_rows_map [OF this] r sol assms(2) show ?thesis
    by (simp add: solve_nqueens_eq)
qed

lemma solution_1: "solution (domains (init_csp 1)) [(0, 0)]"
  by code_simp

lemma solution_4: "solution (domains (init_csp 4)) [(3, 1), (2, 3), (1, 0), (0, 2)]"
  by code_simp

lemma solution_8:
  "solution (domains (init_csp 8)) [(7, 0), (6, 5), (5, 7), (4, 2), (3, 6), (2, 3), (1, 1), (0, 4)]"
  by code_simp

lemma search_2: "backtracking_search (domains (init_csp 2)) = Inr None"
  by code_simp

lemma search_3: "backtracking_search (domains (init_csp 3)) = Inr None"
  by code_simp

subsection \<open>Domains only shrink\<close>

lemma subseq_remove1: "subseq (remove1 x xs) xs"
  by (induction xs) auto

lemma shrunk_refl: "shrunk doms doms"
  by (simp add: shrunk_def)

lemma shrunk_trans: "shrunk c b \<Longrightarrow> shrunk b a \<Longrightarrow> shrunk c a"
  unfolding shrunk_def by (metis subseq_order.trans)

lemma shrunk_remove1: "shrunk (doms[i := remove1 v (doms ! i)]) doms"
proof -
  have "subseq (doms[i := remove1 v (doms ! i)] ! k) (doms ! k)" if "k < length doms" for k
  proof (cases "k = i")
    case True
    with that show ?thesis by (simp add: subseq_remove1)
  next
    case False
    then show ?thesis by simp
  qed
  then show ?thesis by (simp add: shrunk_def)
qed

lemma revise_loop_shrunk:
  "revise_loop var_i var_j vs (revised, doms) = Inr (revised', doms') \<Longrightarrow> shrunk doms' doms"
proof (induction vs arbitrary: revised doms)
  case Nil
  then show ?case by (simp add: shrunk_refl)
next
  case (Cons v vs)
  show ?case
  proof (cases "list_all (\<lambda>val_j. \<not> list_ex (\<lambda>val_j. v = val_j) (doms ! var_j)) (doms ! var_j)")
    case False
    with Cons.prems have "revise_loop var_i var_j vs (revised, doms) = Inr (revised', doms')"
      by (simp split: if_splits)
    then show ?thesis by (rule Cons.IH)
  next
    case True
    with Cons.prems have
      "revise_loop var_i var_j vs (True, doms[var_i := remove1 v (doms ! var_i)]) = Inr (revised', doms')"
      by (simp split: if_splits)
    from Cons.IH [OF this] shrunk_remove1 show ?thesis by (rule shrunk_trans)
  qed
qed

lemma revise_shrunk: "revise doms var_i var_j = Inr (revised, doms') \<Longrightarrow> shrunk doms' doms"
  using revise_loop_shrunk [of var_i var_j "doms ! var_i" False doms revised doms']
  by (simp add: revise_def split: if_splits)

lemma AC3_loop_shrunk: "AC3_loop cs queue doms = Inr (ok, doms') \<Longrightarrow> shrunk doms' doms"
proof (induction cs queue doms rule: AC3_loop_revise_induct)
  case (1 cs doms)
  then show ?case by (simp add: shrunk_refl)
next
  case (2 cs var_i var_j queue doms)
  from "2.prems" obtain revised doms1 where
    rv: "revise doms var_i var_j = Inr (revised, doms1)"
    by (auto split: sum.splits)
  note s1 = revise_shrunk [OF rv]
  show ?case
  proof (cases revised)
    case False
    with "2.prems" rv have "AC3_loop cs queue doms1 = Inr (ok, doms')" by simp
    from "2.IH"(2) [OF rv refl False this] s1 show ?thesis by (rule shrunk_trans)
  next
    case True
    show ?thesis
    proof (cases "doms1 ! var_i = []")
      case e: True
      with "2.prems" rv True have "doms' = doms1" by simp
      with s1 show ?thesis by simp
    next
      case ne: False
      with "2.prems" rv True
      have "AC3_loop cs (queue @ requeue cs var_i var_j) doms1 = Inr (ok, doms')" by simp
      from "2.IH"(1) [OF rv refl True ne this] s1 show ?thesis by (rule shrunk_trans)
    qed
  qed
qed

lemma AC3_shrunk:
  assumes "AC3 st = Inr (ok, st')"
  shows "constraints st' = constraints st \<and> shrunk (domains st') (domains st)"
proof -
  from assms obtain doms' where
    l: "AC3_loop (constraints st) (constraints st) (domains st) = Inr (ok, doms')"
    and st': "st' = st\<lparr>domains := doms'\<rparr>"
    by (auto simp: AC3_def split: sum.splits)
  from AC3_loop_shrunk [OF l] st' show ?thesis by simp
qed

lemma dom_inv_shrunk: "dom_inv n doms \<Longrightarrow> shrunk doms' doms \<Longrightarrow> dom_inv n doms'"
  unfolding dom_inv_def shrunk_def by (metis subseq_order.trans)

lemma dom_inv_values:
  assumes "dom_inv n doms" "k < n"
  shows "distinct (doms ! k) \<and> (\<forall>v \<in> set (doms ! k). 0 \<le> v \<and> v < int n)"
proof -
  from assms have s: "subseq (doms ! k) (map int [0..<n])" by (simp add: dom_inv_def)
  then obtain N where N: "doms ! k = nths (map int [0..<n]) N"
    unfolding subseq_conv_nths by blast
  have "distinct (map int [0..<n])" by (simp add: distinct_map)
  then have "distinct (doms ! k)" unfolding N by (rule distinct_nthsI)
  moreover have "set (doms ! k) \<subseteq> set (map int [0..<n])"
    unfolding N by (rule set_nths_subset)
  then have "\<forall>v \<in> set (doms ! k). 0 \<le> v \<and> v < int n" by auto
  ultimately show ?thesis by simp
qed

lemma revise_example:
  "revise [[0, 1, 2], [1, 2], [0, 1, 2]] 0 1 = Inr (True, [[1, 2], [1, 2], [0, 1, 2]])"
  by (simp add: revise_def)

subsection \<open>The arcs that a revision puts back on the queue\<close>

lemma filter_eq_upt: "filter (\<lambda>b. b = k) [0..<n] = (if k < n then [k] else [])"
  by (induction n) auto

lemma length_filter_neq_upt:
  assumes "k < n"
  shows "length (filter (\<lambda>b. k \<noteq> b) [0..<n]) = n - 1"
proof -
  have "length (filter (\<lambda>b. b = k) [0..<n]) + length (filter (\<lambda>b. \<not> b = k) [0..<n]) = n"
    using sum_length_filter_compl [of "\<lambda>b. b = k" "[0..<n]"] by simp
  moreover have "filter (\<lambda>b. \<not> b = k) [0..<n] = filter (\<lambda>b. k \<noteq> b) [0..<n]"
    by (rule filter_cong) auto
  ultimately show ?thesis using assms by (simp add: filter_eq_upt)
qed

lemma count_list_map_filter:
  "count_list (map f xs) y = length (filter (\<lambda>x. f x = y) xs)"
  by (induction xs) auto

lemma length_concat_single:
  "length (concat (map (\<lambda>a. if a = k then g a else []) xs)) =
     length (filter (\<lambda>a. a = k) xs) * length (g k)"
  by (induction xs) auto

lemma arcs_from:
  "filter (\<lambda>(a, b). a = k) (constraints (init_csp n)) =
     concat (map (\<lambda>a. if a = k then map (Pair a) (filter (\<lambda>b. a \<noteq> b) [0..<n]) else []) [0..<n])"
proof -
  have "filter (\<lambda>(a, b). a = k) (map (Pair a) ys) = (if a = k then map (Pair a) ys else [])"
    for a and ys :: "nat list"
    by (induction ys) auto
  then show ?thesis
    by (simp add: init_csp_def filter_concat comp_def)
qed

lemma requeue_count:
  assumes "k < n" "k \<noteq> j"
  shows "count_list (requeue (constraints (init_csp n)) i j) (k, i) = n - 1"
proof -
  have "count_list (requeue (constraints (init_csp n)) i j) (k, i) =
          length (filter (\<lambda>(a, b). a = k) (constraints (init_csp n)))"
    unfolding requeue_def count_list_map_filter filter_filter
    using assms(2) by (intro arg_cong [where f = length] filter_cong) auto
  also have "\<dots> = length (filter (\<lambda>a. a = k) [0..<n]) * length (map (Pair k) (filter (\<lambda>b. k \<noteq> b) [0..<n]))"
    unfolding arcs_from by (rule length_concat_single)
  also have "\<dots> = n - 1"
    using assms(1) by (simp add: filter_eq_upt length_filter_neq_upt)
  finally show ?thesis .
qed

lemma requeue_set:
  assumes "(i, j) \<in> set (constraints (init_csp n))"
  shows "set (requeue (constraints (init_csp n)) i j) = {(k, i) | k. k < n \<and> k \<noteq> j}"
proof -
  from assms have ij: "i < n" "j < n" "i \<noteq> j" by (simp_all add: constraints_init_csp)
  have "set (requeue (constraints (init_csp n)) i j) =
          {(k, i) | k. \<exists>l. k < n \<and> l < n \<and> k \<noteq> l \<and> k \<noteq> j}"
    by (auto simp: requeue_def constraints_init_csp)
  also have "\<dots> = {(k, i) | k. k < n \<and> k \<noteq> j}"
  proof -
    have "(\<exists>l. k < n \<and> l < n \<and> k \<noteq> l \<and> k \<noteq> j) = (k < n \<and> k \<noteq> j)" for k
    proof (cases "k = i")
      case True
      with ij show ?thesis by auto
    next
      case False
      with ij show ?thesis by auto
    qed
    then show ?thesis by simp
  qed
  finally show ?thesis .
qed

lemma constraints_3: "constraints (init_csp 3) = [(0, 1), (0, 2), (1, 0), (1, 2), (2, 0), (2, 1)]"
  by code_simp

lemma requeue_from:
  "map (\<lambda>(k, _). (k, i)) (filter (\<lambda>(k, _). k \<noteq> j) (map (\<lambda>b. (a, b)) ys)) =
     (if a \<noteq> j then replicate (length ys) (a, i) else [])"
  by (induction ys) auto

lemma concat_map_if:
  "concat (map (\<lambda>a. if Q a then g a else []) xs) = concat (map g (filter Q xs))"
  by (induction xs) auto

lemma requeue_init_csp:
  "requeue (constraints (init_csp n)) i j =
     concat (map (\<lambda>k. replicate (n - 1) (k, i)) (filter (\<lambda>k. k \<noteq> j) [0..<n]))"
proof -
  have "requeue (constraints (init_csp n)) i j =
          concat (map (\<lambda>a. if a \<noteq> j
                             then replicate (length (filter (\<lambda>b. a \<noteq> b) [0..<n])) (a, i)
                             else []) [0..<n])"
    by (simp add: requeue_def init_csp_def map_concat filter_concat comp_def requeue_from)
  also have "\<dots> = concat (map (\<lambda>a. if a \<noteq> j then replicate (n - 1) (a, i) else []) [0..<n])"
    by (intro arg_cong [where f = concat] map_cong refl) (simp add: length_filter_neq_upt)
  also have "\<dots> = concat (map (\<lambda>k. replicate (n - 1) (k, i)) (filter (\<lambda>k. k \<noteq> j) [0..<n]))"
    by (rule concat_map_if)
  finally show ?thesis .
qed

subsection \<open>The order of the candidate values\<close>

lemma foldl_count:
  "foldl (\<lambda>count w. if P w then count + 1 else count) c ws = c + length (filter P ws)"
  for c :: nat
  by (induction ws arbitrary: c) auto

lemma foldl_count_nested:
  "foldl (\<lambda>count u. if G u then foldl (\<lambda>count w. if P u w then count + 1 else count) count (D u)
                      else count) c us =
     c + length (concat (map (\<lambda>u. if G u then map (\<lambda>w. (u, w)) (filter (P u) (D u)) else []) us))"
  for c :: nat
  by (induction us arbitrary: c) (auto simp: foldl_count)

lemma lcv_score_pairs:
  "lcv_score doms variable a v = length (consistent_pairs doms variable a v)"
  unfolding lcv_score_def consistent_pairs_def
  using foldl_count_nested [of "\<lambda>u. u \<noteq> variable \<and> u \<notin> set (map fst a)"
      "\<lambda>u w. is_consistent u w (AList.update variable v a)" "\<lambda>u. doms ! u" 0 "[0..<length doms]"]
  by simp

lemma mset_sorted_reverse: "mset (sorted_reverse key xs) = mset xs"
  by (simp add: sorted_reverse_def multiset.map_comp comp_def)

lemma sorted_reverse_descending:
  "sorted_wrt (\<lambda>x y. key y \<le> key x) (sorted_reverse key xs)"
proof -
  let ?ps = "sort_key (\<lambda>p. - int (fst p)) (map (\<lambda>x. (key x, x)) xs)"
  have "sorted (map (\<lambda>p. - int (fst p)) ?ps)" by (rule sorted_sort_key)
  then have "sorted_wrt (\<lambda>p q. - int (fst p) \<le> - int (fst q)) ?ps" by (simp add: sorted_map)
  moreover have "fst p = key (snd p)" if "p \<in> set ?ps" for p using that by auto
  ultimately have "sorted_wrt (\<lambda>p q. key (snd q) \<le> key (snd p)) ?ps"
    by (elim sorted_wrt_mono_rel [rotated]) auto
  then show ?thesis by (simp add: sorted_reverse_def sorted_wrt_map)
qed

lemma sorted_reverse_stable:
  "filter (\<lambda>x. key x = k) (sorted_reverse key xs) = filter (\<lambda>x. key x = k) xs"
proof -
  let ?ps = "sort_key (\<lambda>p. - int (fst p)) (map (\<lambda>x. (key x, x)) xs)"
  have "filter (\<lambda>x. key x = k) (map snd ?ps) = map snd (filter (\<lambda>p. key (snd p) = k) ?ps)"
    by (simp add: filter_map comp_def)
  also have "filter (\<lambda>p. key (snd p) = k) ?ps = filter (\<lambda>p. - int (fst p) = - int k) ?ps"
    by (rule filter_cong) auto
  also have "\<dots> = filter (\<lambda>p. - int (fst p) = - int k) (map (\<lambda>x. (key x, x)) xs)"
    by (rule sort_key_stable)
  also have "map snd \<dots> = filter (\<lambda>x. key x = k) xs"
    by (simp add: filter_map comp_def)
  finally show ?thesis by (simp add: sorted_reverse_def)
qed

lemma order_example:
  "order_domain_values (domains (init_csp 4)) 2 [(3, 1)] = Inr [3, 0, 1, 2]"
  by code_simp

section \<open>The claims\<close>

text \<open>
  C1. The claim: for distinct variables \<open>Xi\<close>, \<open>Xj\<close> and any domain state, revise removes
  \<open>v\<close> from \<open>Xi\<close>'s domain iff no \<open>w\<close> in \<open>Xj\<close>'s domain is compatible with \<open>v\<close> under
  the full non-attack predicate. The code tests bare equality of the values instead
  (lemma \<open>revise_filter\<close>: it removes \<open>v\<close> iff \<open>v\<close> does not occur in \<open>Xj\<close>'s domain).
  On the board of size 2 as \<open>read_input\<close> leaves it, revising column 0 against column 1
  removes nothing, though row 0 of column 0 is compatible with neither row of column 1.
\<close>

theorem revise_keeps_unsupported_value:
  "domains (init_csp 2) = [[0, 1], [0, 1]] \<and>
   revise [[0, 1], [0, 1]] 0 1 = Inr (False, [[0, 1], [0, 1]]) \<and>
   \<not> compatible 0 0 1 0 \<and> \<not> compatible 0 0 1 1"
  by (simp add: init_csp_def revise_def compatible_def upt_rec)

text \<open>
  C2. The search returns, and if on a domain state it returns an assignment, the
  assignment has one row for each column, taken from the column's domain, and the rows of any two different
  columns \<open>i\<close> and \<open>j\<close> differ and do not lie on a common diagonal:
  \<open>row_i \<noteq> row_j\<close> and \<open>|row_i - row_j| \<noteq> |i - j|\<close>. This holds for every domain
  state, so for the one AC3 leaves for any board size.
\<close>

theorem backtracking_search_non_attacking:
  "(\<exists>res. backtracking_search doms = Inr res) \<and>
   (\<forall>r. backtracking_search doms = Inr (Some r) \<longrightarrow>
      length r = length doms \<and>
      (\<forall>i < length doms. \<exists>ri. map_of r i = Some ri \<and> ri \<in> set (doms ! i)) \<and>
      (\<forall>i < length doms. \<forall>j < length doms. i \<noteq> j \<longrightarrow>
         (\<exists>ri rj. map_of r i = Some ri \<and> map_of r j = Some rj \<and>
                  ri \<noteq> rj \<and> \<bar>ri - rj\<bar> \<noteq> \<bar>int i - int j\<bar>)))"
proof (rule conjI, rule backtracking_search_total, rule allI, rule impI)
  fix r assume run: "backtracking_search doms = Inr (Some r)"
  from backtracking_search_post [OF run] have c: "completes doms [] r" .
  then have sol: "solution doms r" by (rule completes_solution)
  from c have len: "length r = length doms" by (simp add: completes_def)
  have rows: "\<exists>ri. map_of r i = Some ri \<and> ri \<in> set (doms ! i)" if "i < length doms" for i
    using solution_rows [OF sol that] by blast
  have pairs: "\<exists>ri rj. map_of r i = Some ri \<and> map_of r j = Some rj \<and>
                 ri \<noteq> rj \<and> \<bar>ri - rj\<bar> \<noteq> \<bar>int i - int j\<bar>"
    if "i < length doms" "j < length doms" "i \<noteq> j" for i j
  proof -
    from solution_rows [OF sol that(1)] obtain ri where
      i: "map_of r i = Some ri" "(i, ri) \<in> set r" by blast
    from solution_rows [OF sol that(2)] obtain rj where
      j: "map_of r j = Some rj" "(j, rj) \<in> set r" by blast
    from sol have "non_attacking r" by (simp add: solution_def)
    with i(2) j(2) that(3) have "compatible i ri j rj"
      unfolding non_attacking_def by blast
    with i(1) j(1) show ?thesis by (simp add: compatible_def)
  qed
  from len rows pairs
  show "length r = length doms \<and>
      (\<forall>i < length doms. \<exists>ri. map_of r i = Some ri \<and> ri \<in> set (doms ! i)) \<and>
      (\<forall>i < length doms. \<forall>j < length doms. i \<noteq> j \<longrightarrow>
         (\<exists>ri rj. map_of r i = Some ri \<and> map_of r j = Some rj \<and>
                  ri \<noteq> rj \<and> \<bar>ri - rj\<bar> \<noteq> \<bar>int i - int j\<bar>))"
    by blast
qed

theorem backtracking_search_non_attacking_witness:
  "backtracking_search (domains (init_csp 4)) = Inr (Some [(3, 1), (2, 3), (1, 0), (0, 2)]) \<and>
   (\<exists>ri rj. map_of [(3::nat, 1::int), (2, 3), (1, 0), (0, 2)] 1 = Some ri \<and>
            map_of [(3::nat, 1::int), (2, 3), (1, 0), (0, 2)] 2 = Some rj \<and>
            ri \<noteq> rj \<and> \<bar>ri - rj\<bar> \<noteq> \<bar>int 1 - int 2\<bar>)"
proof -
  have len: "length (domains (init_csp 4)) = 4" by (simp add: init_csp_def)
  have h: "backtracking_search (domains (init_csp 4)) = Inr (Some [(3, 1), (2, 3), (1, 0), (0, 2)])"
    by (rule search_4)
  note t = backtracking_search_non_attacking [of "domains (init_csp 4)", THEN conjunct2,
      rule_format, OF h, unfolded len, THEN conjunct2, THEN conjunct2, rule_format, of 1 2]
  have "\<exists>ri rj. map_of [(3::nat, 1::int), (2, 3), (1, 0), (0, 2)] 1 = Some ri \<and>
            map_of [(3::nat, 1::int), (2, 3), (1, 0), (0, 2)] 2 = Some rj \<and>
            ri \<noteq> rj \<and> \<bar>ri - rj\<bar> \<noteq> \<bar>int 1 - int 2\<bar>"
    by (rule t) simp_all
  with h show ?thesis by (rule conjI)
qed

text \<open>
  C3. When AC3 returns \<^verbatim>\<open>False\<close>, \<^verbatim>\<open>solve_nqueens\<close> prints the one line
  \<^verbatim>\<open>No solution found.\<close> and nothing else: no row of an assignment is printed. The
  result is the same for every search function put in the place of
  \<^verbatim>\<open>backtracking_search\<close>, so the search is not called. (On the state \<^verbatim>\<open>read_input\<close>
  creates, AC3 returns \<^verbatim>\<open>True\<close>, lemma \<open>AC3_init_csp\<close>; on a state with two disjoint
  domains it returns \<^verbatim>\<open>False\<close>.)
\<close>

theorem solve_from_infeasible:
  assumes "AC3 st = Inr (False, st')"
  shows "solve_from search st queen_cols = Inr [Text ''No solution found.'']"
  using assms by (simp add: solve_from_def)

theorem solve_from_infeasible_witness:
  "AC3 \<lparr>domains = [[0], [1]], constraints = [(0, 1), (1, 0)]\<rparr> =
     Inr (False, \<lparr>domains = [[], [1]], constraints = [(0, 1), (1, 0)]\<rparr>) \<and>
   solve_from backtracking_search \<lparr>domains = [[0], [1]], constraints = [(0, 1), (1, 0)]\<rparr> [0, 1] =
     Inr [Text ''No solution found.'']"
proof -
  have h: "AC3 \<lparr>domains = [[0], [1]], constraints = [(0, 1), (1, 0)]\<rparr> =
     Inr (False, \<lparr>domains = [[], [1]], constraints = [(0, 1), (1, 0)]\<rparr>)"
    by (simp add: AC3_def revise_def)
  from h solve_from_infeasible [OF h] show ?thesis by (rule conjI)
qed

text \<open>
  C4. For the board sizes 1, 4 and 8, AC3 returns \<^verbatim>\<open>True\<close> and the search returns a
  solution: one row of \<open>[0, n)\<close> for each column, non-attacking; \<^verbatim>\<open>solve_nqueens\<close>
  prints it. For the sizes 2 and 3, AC3 returns \<^verbatim>\<open>True\<close>, the search returns \<^verbatim>\<open>None\<close>
  and \<^verbatim>\<open>solve_nqueens\<close> prints \<^verbatim>\<open>No solution found\<close>.
\<close>

theorem known_board_sizes:
  "(\<forall>n \<in> {1, 4, 8}. AC3 (init_csp n) = Inr (True, init_csp n) \<and>
      (\<forall>file_lines. length file_lines = n \<longrightarrow>
         (\<exists>r. backtracking_search (domains (init_csp n)) = Inr (Some r) \<and>
              solution (domains (init_csp n)) r \<and>
              solve_nqueens file_lines =
                Inr (Text ''Solution found'' #
                     map (\<lambda>i. Tuple (int i + 1) (the (map_of r i) + 1)) [0..<n])))) \<and>
   (\<forall>n \<in> {2, 3}. AC3 (init_csp n) = Inr (True, init_csp n) \<and>
      backtracking_search (domains (init_csp n)) = Inr None \<and>
      (\<forall>file_lines. length file_lines = n \<longrightarrow>
         solve_nqueens file_lines = Inr [Text ''No solution found'']))"
  using solve_nqueens_solution [OF solution_1] solve_nqueens_solution [OF solution_4]
    solve_nqueens_solution [OF solution_8]
    solve_nqueens_no_solution [OF search_2] solve_nqueens_no_solution [OF search_3]
    search_2 search_3
  by (simp add: AC3_init_csp)

theorem known_board_sizes_witness:
  "backtracking_search (domains (init_csp 2)) = Inr None \<and>
   solve_nqueens [0, 0, 0] = Inr [Text ''No solution found''] \<and>
   (\<exists>r. backtracking_search (domains (init_csp 8)) = Inr (Some r) \<and>
        solution (domains (init_csp 8)) r)"
proof -
  note t = known_board_sizes
  from t have a: "backtracking_search (domains (init_csp 2)) = Inr None" by simp
  from t have b: "solve_nqueens [0, 0, 0] = Inr [Text ''No solution found'']" by simp
  from t have "\<forall>file_lines. length file_lines = 8 \<longrightarrow>
         (\<exists>r. backtracking_search (domains (init_csp 8)) = Inr (Some r) \<and>
              solution (domains (init_csp 8)) r \<and>
              solve_nqueens file_lines =
                Inr (Text ''Solution found'' #
                     map (\<lambda>i. Tuple (int i + 1) (the (map_of r i) + 1)) [0..<8]))" by simp
  then have c: "\<exists>r. backtracking_search (domains (init_csp 8)) = Inr (Some r) \<and>
        solution (domains (init_csp 8)) r"
    using length_replicate [of 8 "0::int"] by blast
  from a b c show ?thesis by (intro conjI)
qed

text \<open>
  C5. If some variable is unassigned, \<open>select_unassigned_variable\<close> returns an unassigned
  variable whose domain is no longer than that of any other unassigned variable, and
  among the unassigned variables with a domain of that same length it is the one with
  the largest index.
\<close>

theorem select_unassigned_variable_mrv:
  assumes "\<exists>u < length doms. u \<notin> fst ` set a"
  shows "\<exists>v. select_unassigned_variable doms a = Inr v \<and> v < length doms \<and> v \<notin> fst ` set a \<and>
           (\<forall>u < length doms. u \<notin> fst ` set a \<longrightarrow>
              length (doms ! v) \<le> length (doms ! u) \<and>
              (length (doms ! u) = length (doms ! v) \<longrightarrow> u \<le> v))"
proof -
  from assms have "set (unassigned_vars doms a) \<noteq> {}"
    unfolding set_unassigned_vars by blast
  then have "unassigned_vars doms a \<noteq> []" by auto
  from min_by_key_least [OF this, of "mrv_key doms"]
  obtain v where sel: "select_unassigned_variable doms a = Inr v"
    and mem: "v \<in> set (unassigned_vars doms a)"
    and least: "\<forall>y \<in> set (unassigned_vars doms a). \<not> key_less (mrv_key doms y) (mrv_key doms v)"
    by (auto simp: select_unassigned_variable_def)
  have "length (doms ! v) \<le> length (doms ! u) \<and> (length (doms ! u) = length (doms ! v) \<longrightarrow> u \<le> v)"
    if "u < length doms" "u \<notin> fst ` set a" for u
  proof -
    from that have "u \<in> set (unassigned_vars doms a)" by (simp add: set_unassigned_vars)
    with least have "\<not> key_less (mrv_key doms u) (mrv_key doms v)" by blast
    then show ?thesis by (auto simp: key_less_def mrv_key_def)
  qed
  with sel mem show ?thesis by (auto simp: set_unassigned_vars)
qed

theorem select_unassigned_variable_mrv_witness:
  "(\<exists>u < length [[0, 1], [0, 1], [0], [0::int]]. u \<notin> fst ` set [(3, 0::int)]) \<and>
   (\<exists>v. select_unassigned_variable [[0, 1], [0, 1], [0], [0]] [(3, 0)] = Inr v \<and>
        v < length [[0, 1], [0, 1], [0], [0::int]] \<and> v \<notin> fst ` set [(3, 0::int)] \<and>
        (\<forall>u < length [[0, 1], [0, 1], [0], [0::int]]. u \<notin> fst ` set [(3, 0::int)] \<longrightarrow>
           length ([[0, 1], [0, 1], [0], [0::int]] ! v) \<le> length ([[0, 1], [0, 1], [0], [0::int]] ! u) \<and>
           (length ([[0, 1], [0, 1], [0], [0::int]] ! u) = length ([[0, 1], [0, 1], [0], [0::int]] ! v)
              \<longrightarrow> u \<le> v))) \<and>
   select_unassigned_variable [[0, 1], [0, 1], [0], [0]] [(3, 0)] = Inr 2"
proof -
  have h: "\<exists>u < length [[0, 1], [0, 1], [0], [0::int]]. u \<notin> fst ` set [(3, 0::int)]"
    by (rule exI [of _ 0]) simp
  have e: "select_unassigned_variable [[0, 1], [0, 1], [0], [0]] [(3, 0)] = Inr 2"
    by (simp add: select_unassigned_variable_def unassigned_vars_def min_by_key_def
        mrv_key_def key_less_def upt_rec)
  from h select_unassigned_variable_mrv [OF h] e show ?thesis by (intro conjI)
qed

text \<open>
  C6. For a variable of the domain store, \<open>order_domain_values\<close> returns the values of
  its domain (the same values, as often) in descending order of their LCV score, and
  the score of a value \<open>v\<close> is the number of pairs \<open>(u, w)\<close> with \<open>u\<close> unassigned and not
  the selected variable, \<open>w\<close> in \<open>u\<close>'s domain, and \<open>w\<close> consistent with the current
  assignment extended by \<open>{selected: v}\<close>. (Values of equal score keep the order of the
  domain, lemma \<open>sorted_reverse_stable\<close>.)
\<close>

theorem order_domain_values_lcv:
  assumes "variable < length doms"
  shows "\<exists>vs. order_domain_values doms variable a = Inr vs \<and>
              mset vs = mset (doms ! variable) \<and>
              sorted_wrt (\<lambda>x y. lcv_score doms variable a y \<le> lcv_score doms variable a x) vs \<and>
              (\<forall>v. lcv_score doms variable a v = length (consistent_pairs doms variable a v))"
proof -
  let ?vs = "sorted_reverse (lcv_score doms variable a) (doms ! variable)"
  from assms have "order_domain_values doms variable a = Inr ?vs"
    by (simp add: order_domain_values_def)
  moreover have "mset ?vs = mset (doms ! variable)" by (rule mset_sorted_reverse)
  moreover have "sorted_wrt (\<lambda>x y. lcv_score doms variable a y \<le> lcv_score doms variable a x) ?vs"
    by (rule sorted_reverse_descending)
  moreover have "\<forall>v. lcv_score doms variable a v = length (consistent_pairs doms variable a v)"
    using lcv_score_pairs by blast
  ultimately show ?thesis by blast
qed

theorem order_domain_values_lcv_witness:
  "2 < length (domains (init_csp 4)) \<and>
   order_domain_values (domains (init_csp 4)) 2 [(3, 1)] = Inr [3, 0, 1, 2] \<and>
   mset [3, 0, 1, 2] = mset (domains (init_csp 4) ! 2) \<and>
   sorted_wrt (\<lambda>x y. lcv_score (domains (init_csp 4)) 2 [(3, 1)] y
                     \<le> lcv_score (domains (init_csp 4)) 2 [(3, 1)] x) [3, 0, 1, 2] \<and>
   lcv_score (domains (init_csp 4)) 2 [(3, 1)] 3 =
     length (consistent_pairs (domains (init_csp 4)) 2 [(3, 1)] 3)"
proof -
  have h: "2 < length (domains (init_csp 4))" by (simp add: domains_init_csp)
  from order_domain_values_lcv [OF h, of "[(3, 1)]"] obtain vs where
    vs: "order_domain_values (domains (init_csp 4)) 2 [(3, 1)] = Inr vs"
    and m: "mset vs = mset (domains (init_csp 4) ! 2)"
    and srt: "sorted_wrt (\<lambda>x y. lcv_score (domains (init_csp 4)) 2 [(3, 1)] y
                     \<le> lcv_score (domains (init_csp 4)) 2 [(3, 1)] x) vs"
    and sc: "\<forall>v. lcv_score (domains (init_csp 4)) 2 [(3, 1)] v =
               length (consistent_pairs (domains (init_csp 4)) 2 [(3, 1)] v)"
    by blast
  from vs order_example have eq: "vs = [3, 0, 1, 2]" by simp
  from sc have sc3: "lcv_score (domains (init_csp 4)) 2 [(3, 1)] 3 =
     length (consistent_pairs (domains (init_csp 4)) 2 [(3, 1)] 3)" by (rule spec)
  from h order_example m [unfolded eq] srt [unfolded eq] sc3 show ?thesis by (intro conjI)
qed

text \<open>
  C7. With the constraints of \<^verbatim>\<open>read_input\<close> for size \<open>n\<close>: when the revision of the arc
  \<open>(i, j)\<close> taken from the queue removes a value and leaves \<open>i\<close>'s domain non-empty, the
  body of the loop goes on with the rest of the queue followed by the arcs \<open>(k, i)\<close> for
  every variable \<open>k \<noteq> j\<close>, in increasing order of \<open>k\<close>, each of them \<open>n - 1\<close> times (the
  inner loop appends one for every constraint that starts at \<open>k\<close>), and with nothing
  else. As a set the appended arcs are exactly \<open>{(k, i) | k < n, k \<noteq> j}\<close>; \<open>(i, i)\<close> is
  among them.
\<close>

theorem AC3_requeues:
  assumes "(i, j) \<in> set (constraints (init_csp n))"
    and "revise doms i j = Inr (True, doms')" and "doms' ! i \<noteq> []"
  shows "AC3_step (constraints (init_csp n)) (i, j) queue doms =
           Inr (Continue
                  (queue @ concat (map (\<lambda>k. replicate (n - 1) (k, i)) (filter (\<lambda>k. k \<noteq> j) [0..<n])))
                  doms') \<and>
         AC3_loop (constraints (init_csp n)) ((i, j) # queue) doms =
           AC3_loop (constraints (init_csp n))
             (queue @ concat (map (\<lambda>k. replicate (n - 1) (k, i)) (filter (\<lambda>k. k \<noteq> j) [0..<n])))
             doms' \<and>
         set (concat (map (\<lambda>k. replicate (n - 1) (k, i)) (filter (\<lambda>k. k \<noteq> j) [0..<n]))) =
           {(k, i) | k. k < n \<and> k \<noteq> j}"
proof -
  let ?cs = "constraints (init_csp n)"
  let ?new = "concat (map (\<lambda>k. replicate (n - 1) (k, i)) (filter (\<lambda>k. k \<noteq> j) [0..<n]))"
  have r: "requeue ?cs i j = ?new" by (rule requeue_init_csp)
  from assms(2,3) have "AC3_step ?cs (i, j) queue doms = Inr (Continue (queue @ requeue ?cs i j) doms')"
    by simp
  then have step: "AC3_step ?cs (i, j) queue doms = Inr (Continue (queue @ ?new) doms')"
    unfolding r .
  from assms(2,3) have "AC3_loop ?cs ((i, j) # queue) doms = AC3_loop ?cs (queue @ requeue ?cs i j) doms'"
    by simp
  then have loop: "AC3_loop ?cs ((i, j) # queue) doms = AC3_loop ?cs (queue @ ?new) doms'"
    unfolding r .
  from requeue_set [OF assms(1)] have st: "set ?new = {(k, i) | k. k < n \<and> k \<noteq> j}"
    unfolding r .
  from step loop st show ?thesis by (intro conjI)
qed

theorem AC3_requeues_witness:
  "(0, 1) \<in> set (constraints (init_csp 3)) \<and>
   revise [[0, 1, 2], [1, 2], [0, 1, 2]] 0 1 = Inr (True, [[1, 2], [1, 2], [0, 1, 2]]) \<and>
   [[1, 2], [1, 2], [0, 1, 2::int]] ! 0 \<noteq> [] \<and>
   AC3_step (constraints (init_csp 3)) (0, 1) [(2, 1)] [[0, 1, 2], [1, 2], [0, 1, 2]] =
     Inr (Continue
            ([(2, 1)] @ concat (map (\<lambda>k. replicate (3 - 1) (k, 0)) (filter (\<lambda>k. k \<noteq> 1) [0..<3])))
            [[1, 2], [1, 2], [0, 1, 2]]) \<and>
   concat (map (\<lambda>k. replicate (3 - 1) (k, 0::nat)) (filter (\<lambda>k. k \<noteq> 1) [0..<3])) =
     [(0, 0), (0, 0), (2, 0), (2, 0)]"
proof -
  have a: "(0, 1) \<in> set (constraints (init_csp 3))" by (simp add: constraints_3)
  have c: "[[1, 2], [1, 2], [0, 1, 2::int]] ! 0 \<noteq> []" by simp
  note t = AC3_requeues [OF a revise_example c, of "[(2, 1)]", THEN conjunct1]
  have e: "concat (map (\<lambda>k. replicate (3 - 1) (k, 0::nat)) (filter (\<lambda>k. k \<noteq> 1) [0..<3])) =
     [(0, 0), (0, 0), (2, 0), (2, 0)]"
    by (simp add: upt_rec numeral_2_eq_2)
  from a revise_example c t e show ?thesis by (intro conjI)
qed

text \<open>
  As the claim states it, each of these arcs is re-enqueued once. On the board of size 3
  the revision of \<open>(0, 1)\<close> puts \<open>(0, 0)\<close> and \<open>(2, 0)\<close> on the queue twice each, which is
  not the claimed list, in any order.
\<close>

theorem AC3_requeues_counterexample:
  "AC3_step (constraints (init_csp 3)) (0, 1) [(2, 1)] [[0, 1, 2], [1, 2], [0, 1, 2]] =
     Inr (Continue ([(2, 1)] @ [(0, 0), (0, 0), (2, 0), (2, 0)]) [[1, 2], [1, 2], [0, 1, 2]]) \<and>
   claimed_requeue 3 0 1 = [(0, 0), (2, 0)] \<and>
   mset [(0::nat, 0::nat), (0, 0), (2, 0), (2, 0)] \<noteq> mset (claimed_requeue 3 0 1)"
proof -
  have c: "claimed_requeue 3 0 1 = [(0, 0), (2, 0)]"
    by (simp add: claimed_requeue_def upt_rec)
  have s: "AC3_step (constraints (init_csp 3)) (0, 1) [(2, 1)] [[0, 1, 2], [1, 2], [0, 1, 2]] =
     Inr (Continue ([(2, 1)] @ [(0, 0), (0, 0), (2, 0), (2, 0)]) [[1, 2], [1, 2], [0, 1, 2]])"
    by code_simp
  have "count (mset [(0::nat, 0::nat), (0, 0), (2, 0), (2, 0)]) (0, 0) \<noteq>
        count (mset [(0::nat, 0::nat), (2, 0)]) (0, 0)" by simp
  then have m: "mset [(0::nat, 0::nat), (0, 0), (2, 0), (2, 0)] \<noteq> mset (claimed_requeue 3 0 1)"
    unfolding c by metis
  from s c m show ?thesis by (intro conjI)
qed

text \<open>
  C8. For every board size \<open>n\<close>, AC3 on the state \<^verbatim>\<open>read_input\<close> creates returns a result
  and a state, and AC3 on that state returns the same result and leaves the state as
  it is: the second run removes nothing. The same holds from any domains for the \<open>n\<close>
  variables whenever the first run returns \<^verbatim>\<open>True\<close>, as it always does from the state
  \<^verbatim>\<open>read_input\<close> creates.
\<close>

theorem AC3_idempotent:
  "(\<exists>ok st'. AC3 (init_csp n) = Inr (ok, st') \<and> AC3 st' = Inr (ok, st')) \<and>
   (\<forall>doms st'. length doms = n \<and>
      AC3 \<lparr>domains = doms, constraints = constraints (init_csp n)\<rparr> = Inr (True, st') \<longrightarrow>
      AC3 st' = Inr (True, st'))"
proof (intro conjI allI impI)
  show "\<exists>ok st'. AC3 (init_csp n) = Inr (ok, st') \<and> AC3 st' = Inr (ok, st')"
    using AC3_init_csp [of n] by (intro exI [of _ True] exI [of _ "init_csp n"]) simp
next
  fix doms st'
  assume "length doms = n \<and>
      AC3 \<lparr>domains = doms, constraints = constraints (init_csp n)\<rparr> = Inr (True, st')"
  then show "AC3 st' = Inr (True, st')"
    using AC3_second_run [of "\<lparr>domains = doms, constraints = constraints (init_csp n)\<rparr>" n st']
    by simp
qed

theorem AC3_idempotent_witness:
  "length [[0, 1, 2], [1, 2], [0, 1, 2::int]] = 3 \<and>
   AC3 \<lparr>domains = [[0, 1, 2], [1, 2], [0, 1, 2]], constraints = constraints (init_csp 3)\<rparr> =
     Inr (True, \<lparr>domains = [[1, 2], [1, 2], [1, 2]], constraints = constraints (init_csp 3)\<rparr>) \<and>
   AC3 \<lparr>domains = [[1, 2], [1, 2], [1, 2]], constraints = constraints (init_csp 3)\<rparr> =
     Inr (True, \<lparr>domains = [[1, 2], [1, 2], [1, 2]], constraints = constraints (init_csp 3)\<rparr>)"
proof -
  have l: "length [[0, 1, 2], [1, 2], [0, 1, 2::int]] = 3" by simp
  note t = AC3_idempotent [of 3, THEN conjunct2, rule_format, OF conjI, OF l AC3_example]
  from l AC3_example t show ?thesis by (intro conjI)
qed

text \<open>
  C9. The domains \<^verbatim>\<open>read_input\<close> creates for size \<open>n\<close> satisfy the invariant: each is a
  subsequence of \<open>[0, ..., n - 1]\<close>, so its values are distinct and lie in \<open>[0, n)\<close>.
  \<^verbatim>\<open>revise\<close> and \<^verbatim>\<open>AC3\<close> keep the invariant and leave each domain a subsequence of
  what it was, and on such domains they return (\<^verbatim>\<open>revise\<close> for two variables, \<^verbatim>\<open>AC3\<close>
  with the constraints \<^verbatim>\<open>read_input\<close> creates). The search (\<open>backtrack\<close>, \<open>select_unassigned_variable\<close>,
  \<open>order_domain_values\<close>, \<open>is_consistent\<close>) has no assignment to \<^verbatim>\<open>self.domains\<close> and
  no call of a mutating method on a domain (\<^verbatim>\<open>sorted\<close> builds a new list): it takes the
  domains as an argument and its only state is the assignment.
\<close>

theorem domains_only_shrink:
  "dom_inv n (domains (init_csp n)) \<and>
   (dom_inv n doms \<longrightarrow>
      (\<forall>k < n. distinct (doms ! k) \<and> (\<forall>v \<in> set (doms ! k). 0 \<le> v \<and> v < int n))) \<and>
   (dom_inv n doms \<and> revise doms var_i var_j = Inr (revised, doms') \<longrightarrow>
      dom_inv n doms' \<and> (\<forall>k < n. subseq (doms' ! k) (doms ! k))) \<and>
   (dom_inv n (domains st) \<and> AC3 st = Inr (ok, st') \<longrightarrow>
      dom_inv n (domains st') \<and> (\<forall>k < n. subseq (domains st' ! k) (domains st ! k))) \<and>
   (dom_inv n doms \<and> var_i < n \<and> var_j < n \<longrightarrow>
      (\<exists>revised doms'. revise doms var_i var_j = Inr (revised, doms'))) \<and>
   (dom_inv n (domains st) \<and> constraints st = constraints (init_csp n) \<longrightarrow>
      (\<exists>ok st'. AC3 st = Inr (ok, st')))"
proof (intro conjI impI)
  show "dom_inv n (domains (init_csp n))" by (simp add: dom_inv_def domains_init_csp)
next
  assume "dom_inv n doms"
  then show "\<forall>k < n. distinct (doms ! k) \<and> (\<forall>v \<in> set (doms ! k). 0 \<le> v \<and> v < int n)"
    using dom_inv_values by blast
next
  assume a: "dom_inv n doms \<and> revise doms var_i var_j = Inr (revised, doms')"
  then have s: "shrunk doms' doms" using revise_shrunk by blast
  with a show "dom_inv n doms'" using dom_inv_shrunk by blast
  from s a show "\<forall>k < n. subseq (doms' ! k) (doms ! k)" by (simp add: shrunk_def dom_inv_def)
next
  assume a: "dom_inv n (domains st) \<and> AC3 st = Inr (ok, st')"
  then have s: "shrunk (domains st') (domains st)" using AC3_shrunk by blast
  with a show "dom_inv n (domains st')" using dom_inv_shrunk by blast
  from s a show "\<forall>k < n. subseq (domains st' ! k) (domains st ! k)"
    by (simp add: shrunk_def dom_inv_def)
next
  assume "dom_inv n doms \<and> var_i < n \<and> var_j < n"
  then show "\<exists>revised doms'. revise doms var_i var_j = Inr (revised, doms')"
    using revise_eq [of var_i doms var_j] by (simp add: dom_inv_def)
next
  assume "dom_inv n (domains st) \<and> constraints st = constraints (init_csp n)"
  then show "\<exists>ok st'. AC3 st = Inr (ok, st')"
    using AC3_returns [of st n] by (simp add: dom_inv_def)
qed

theorem domains_only_shrink_witness:
  "dom_inv 3 [[0, 1, 2], [1, 2], [0, 1, 2]] \<and>
   revise [[0, 1, 2], [1, 2], [0, 1, 2]] 0 1 = Inr (True, [[1, 2], [1, 2], [0, 1, 2]]) \<and>
   dom_inv 3 [[1, 2], [1, 2], [0, 1, 2]] \<and>
   subseq ([[1, 2], [1, 2], [0, 1, 2]] ! 0) ([[0, 1, 2], [1, 2], [0, 1, 2::int]] ! 0) \<and>
   distinct ([[1, 2], [1, 2], [0, 1, 2::int]] ! 0)"
proof -
  have i: "dom_inv 3 [[0, 1, 2], [1, 2], [0, 1, 2]]"
    by (simp add: dom_inv_def upt_rec numeral_3_eq_3 less_Suc_eq)
  note t = domains_only_shrink [of 3 "[[0, 1, 2], [1, 2], [0, 1, 2]]" 0 1 True
      "[[1, 2], [1, 2], [0, 1, 2]]"]
  from t i revise_example have d: "dom_inv 3 [[1, 2], [1, 2], [0, 1, 2]]" by blast
  from t i revise_example
  have "\<forall>k < 3. subseq ([[1, 2], [1, 2], [0, 1, 2]] ! k) ([[0, 1, 2], [1, 2], [0, 1, 2::int]] ! k)"
    by blast
  then have s: "subseq ([[1, 2], [1, 2], [0, 1, 2]] ! 0) ([[0, 1, 2], [1, 2], [0, 1, 2::int]] ! 0)"
    by (elim allE [of _ 0]) simp
  note u = domains_only_shrink [of 3 "[[1, 2], [1, 2], [0, 1, 2]]"]
  from u d have "\<forall>k < 3. distinct ([[1, 2], [1, 2], [0, 1, 2::int]] ! k) \<and>
     (\<forall>v \<in> set ([[1, 2], [1, 2], [0, 1, 2::int]] ! k). 0 \<le> v \<and> v < int 3)" by blast
  then have e: "distinct ([[1, 2], [1, 2], [0, 1, 2::int]] ! 0)"
    by (elim allE [of _ 0]) simp
  from i revise_example d s e show ?thesis by (intro conjI)
qed

text \<open>
  C10. A call of \<^verbatim>\<open>_backtrack\<close> that returns \<^verbatim>\<open>None\<close> leaves the assignment exactly as
  it was at entry. A call that returns an assignment returns the dict itself, which
  then has as many entries as there are variables and keeps every entry it had at
  entry; when the entry assignment is a partial assignment (distinct keys, all of them
  variables), the result has exactly one entry for each variable. On a partial
  assignment the call returns once the depth bound exceeds the number of unassigned
  variables.
\<close>

theorem backtrack_atomic:
  "(\<forall>a'. backtrack fuel doms a = Inr (None, a') \<longrightarrow> a' = a) \<and>
   (\<forall>r a'. backtrack fuel doms a = Inr (Some r, a') \<longrightarrow>
      a' = r \<and> length r = length doms \<and> set a \<subseteq> set r \<and>
      (distinct (map fst a) \<and> fst ` set a \<subseteq> {0..<length doms} \<longrightarrow>
         distinct (map fst r) \<and> fst ` set r = {0..<length doms})) \<and>
   (distinct (map fst a) \<and> fst ` set a \<subseteq> {0..<length doms} \<and>
    length (unassigned_vars doms a) < fuel \<longrightarrow>
      (\<exists>res a'. backtrack fuel doms a = Inr (res, a')))"
proof (intro conjI allI impI)
  fix a' assume "backtrack fuel doms a = Inr (None, a')"
  then show "a' = a" by (rule backtrack_failure_restores)
next
  fix r a' assume run: "backtrack fuel doms a = Inr (Some r, a')"
  from backtrack_post [OF run] have eq: "a' = r" and c: "completes doms a r"
    by (simp_all add: post_def)
  from eq show "a' = r" .
  from c show "length r = length doms" by (simp add: completes_def)
  from c show "set a \<subseteq> set r" by (simp add: completes_def)
  assume pa: "distinct (map fst a) \<and> fst ` set a \<subseteq> {0..<length doms}"
  with c show d: "distinct (map fst r)" by (simp add: completes_def)
  from c have "fst ` set r \<subseteq> fst ` set a \<union> {0..<length doms}"
    by (simp add: completes_def)
  with pa have "fst ` set r \<subseteq> {0..<length doms}" by blast
  from keys_complete [OF d this] c show "fst ` set r = {0..<length doms}"
    by (simp add: completes_def)
next
  assume "distinct (map fst a) \<and> fst ` set a \<subseteq> {0..<length doms} \<and>
    length (unassigned_vars doms a) < fuel"
  with backtrack_try_values_total(1) [of a doms fuel]
  show "\<exists>res a'. backtrack fuel doms a = Inr (res, a')" by auto
qed

theorem backtrack_atomic_witness:
  "backtrack 3 (domains (init_csp 3)) [(2, 0)] = Inr (None, [(2, 0)]) \<and>
   backtrack 4 (domains (init_csp 4)) [(3, 1)] =
     Inr (Some [(3, 1), (2, 3), (1, 0), (0, 2)], [(3, 1), (2, 3), (1, 0), (0, 2)]) \<and>
   length [(3::nat, 1::int), (2, 3), (1, 0), (0, 2)] = length (domains (init_csp 4)) \<and>
   set [(3::nat, 1::int)] \<subseteq> set [(3, 1), (2, 3), (1, 0), (0, 2)] \<and>
   fst ` set [(3::nat, 1::int), (2, 3), (1, 0), (0, 2)] = {0..<length (domains (init_csp 4))} \<and>
   (\<exists>res a'. backtrack 3 (domains (init_csp 3)) [(2, 0)] = Inr (res, a') \<and> (res = None \<and> a' = [(2, 0)]))"
proof -
  note t = backtrack_atomic [of 4 "domains (init_csp 4)" "[(3, 1)]", THEN conjunct2, THEN conjunct1,
      rule_format, OF backtrack_4_succeeds]
  have pa: "distinct (map fst [(3::nat, 1::int)]) \<and>
            fst ` set [(3::nat, 1::int)] \<subseteq> {0..<length (domains (init_csp 4))}"
    by (simp add: domains_init_csp)
  from t have l: "length [(3::nat, 1::int), (2, 3), (1, 0), (0, 2)] = length (domains (init_csp 4))"
    by blast
  from t have s: "set [(3::nat, 1::int)] \<subseteq> set [(3, 1), (2, 3), (1, 0), (0, 2)]"
    by blast
  from t pa have k: "fst ` set [(3::nat, 1::int), (2, 3), (1, 0), (0, 2)] = {0..<length (domains (init_csp 4))}"
    by blast
  note u = backtrack_atomic [of 3 "domains (init_csp 3)" "[(2, 0)]", THEN conjunct1,
      rule_format, OF backtrack_3_fails]
  have e: "\<exists>res a'. backtrack 3 (domains (init_csp 3)) [(2, 0)] = Inr (res, a') \<and> (res = None \<and> a' = [(2, 0)])"
    using backtrack_3_fails u by blast
  from backtrack_3_fails backtrack_4_succeeds l s k e show ?thesis by (intro conjI)
qed

end
